theory Spec2Isabelle
  imports Complex_Main "HOL-Library.Log_Nat"
begin

section \<open>Data model\<close>

text \<open>
  The program is \<^verbatim>\<open>cloud-cost-guard/cmd/server/main.go\<close> together with its
  schema (tables \<^verbatim>\<open>daily_costs\<close> and \<^verbatim>\<open>alerts\<close>).

  Modelling decisions:
  \<^item> A \<^verbatim>\<open>time.Time\<close> in UTC is the number of nanoseconds since the Unix epoch; a
    calendar date (the text \<^verbatim>\<open>day.Format("2006-01-02")\<close>, a \<^verbatim>\<open>date\<close> column)
    is the number of the day since the epoch.
  \<^item> Postgres' \<^verbatim>\<open>numeric\<close> values are real numbers, with the rounding of the column type
    \<^verbatim>\<open>numeric(12,2)\<close> and of the division of \<^verbatim>\<open>AVG\<close> written out. The detector reads
    its two results into \<^verbatim>\<open>float64\<close> variables and compares them there: this rounding
    is modelled (\<open>float64\<close> below). The arithmetic of the sampler is done on real
    numbers: what the sampler sends is rounded to two decimal places by the column.
  \<^item> The database and the process log are one explicit state. Every SQL statement the
    program sends is appended to a trace. A statement can fail: the state holds the
    list of outcomes of the coming statements; the empty list means that every coming
    statement succeeds. A statement fails either before it is executed (no connection,
    or the statement cannot be prepared: \<^verbatim>\<open>Query\<close>, \<^verbatim>\<open>Exec\<close> and \<^verbatim>\<open>Scan\<close> return the error)
    or with an error that the server returns when it executes the statement (\<^verbatim>\<open>Exec\<close>
    and \<^verbatim>\<open>QueryRow(...).Scan\<close> return it; after \<^verbatim>\<open>Query\<close> it is found in \<^verbatim>\<open>rows.Err()\<close>
    and \<^verbatim>\<open>rows.Next()\<close> is false).
  \<^item> The column \<^verbatim>\<open>created_at\<close> of both tables is left out: nothing below reads it.
\<close>

type_synonym date = int
type_synonym time = int

definition nanos_per_day :: int where
  "nanos_per_day = 86400000000000"

definition Format_date :: "time \<Rightarrow> date" where
  "Format_date t = t div nanos_per_day"

definition AddDate :: "time \<Rightarrow> int \<Rightarrow> time" where
  "AddDate t n = t + n * nanos_per_day"

text \<open>The text built by
  \<^verbatim>\<open>fmt.Sprintf("%s cost spike: today=%.2f, 7d_avg=%.2f", s, today, avg7)\<close>,
  kept as its three arguments.\<close>

datatype message = CostSpike string real real

record daily_costs_row =
  dc_date :: date
  dc_service :: string
  dc_amount :: real
  dc_currency :: string

record alerts_row =
  al_id :: nat
  al_date :: date
  al_service :: string
  al_type :: string
  al_message :: message

datatype err = ErrNoRows | ErrStore | ErrNumericOverflow | PanicIndexOutOfRange

fun is_panic :: "err \<Rightarrow> bool" where
  "is_panic PanicIndexOutOfRange = True"
| "is_panic _ = False"

datatype stmt =
    UpsertCost date string real
  | SelectAmount date string
  | SelectAvg7 string date
  | InsertAlert date string message
  | SelectCosts string string
  | SelectAlerts string string

datatype log_line =
    LogAlert message
  | LogSchedulerError err
  | LogBackfillError err

datatype outcome = Done | SendError | ServerError

record state =
  daily_costs :: "daily_costs_row list"
  alerts :: "alerts_row list"
  alerts_id_seq :: nat
  trace :: "stmt list"
  faults :: "outcome list"
  logged :: "log_line list"

definition log_Println :: "log_line \<Rightarrow> state \<Rightarrow> state" where
  "log_Println l st = st\<lparr>logged := logged st @ [l]\<rparr>"

text \<open>Sending one statement: it is recorded in the trace and the next outcome of the
  store is consumed. \<open>stmt_fails\<close>: the statement ends in an error, as \<^verbatim>\<open>Exec\<close> and
  \<^verbatim>\<open>QueryRow(...).Scan\<close> report it; \<open>query_fails\<close>: \<^verbatim>\<open>Query\<close> itself returns an error.\<close>

definition stmt_fails :: "state \<Rightarrow> bool" where
  "stmt_fails st = (case faults st of [] \<Rightarrow> False | f # fs \<Rightarrow> f \<noteq> Done)"

definition query_fails :: "state \<Rightarrow> bool" where
  "query_fails st = (case faults st of [] \<Rightarrow> False | f # fs \<Rightarrow> f = SendError)"

definition sent :: "stmt \<Rightarrow> state \<Rightarrow> state" where
  "sent q st = st\<lparr>trace := trace st @ [q], faults := tl (faults st)\<rparr>"

section \<open>Cost store\<close>

text \<open>A value assigned to a column of type \<^verbatim>\<open>numeric(12,2)\<close>: rounded to two decimal
  places, half away from zero; an error when it needs more than ten digits before the
  decimal point.\<close>

definition numeric_12_2 :: "real \<Rightarrow> real option" where
  "numeric_12_2 x =
     (let c = (if 0 \<le> x then \<lfloor>x * 100 + 1 / 2\<rfloor> else - \<lfloor>- x * 100 + 1 / 2\<rfloor>)
      in if \<bar>c\<bar> < 10 ^ 12 then Some (real_of_int c / 100) else None)"

text \<open>\<^verbatim>\<open>INSERT ... ON CONFLICT (date, service) DO UPDATE SET amount = EXCLUDED.amount,
  currency = EXCLUDED.currency\<close> on the rows of the table.\<close>

fun upsert_row :: "daily_costs_row list \<Rightarrow> date \<Rightarrow> string \<Rightarrow> real \<Rightarrow> string \<Rightarrow> daily_costs_row list" where
  "upsert_row [] d s a c = [\<lparr>dc_date = d, dc_service = s, dc_amount = a, dc_currency = c\<rparr>]"
| "upsert_row (r # rs) d s a c =
     (if dc_date r = d \<and> dc_service r = s
      then r\<lparr>dc_amount := a, dc_currency := c\<rparr> # rs
      else r # upsert_row rs d s a c)"

definition exec_upsert :: "state \<Rightarrow> date \<Rightarrow> string \<Rightarrow> real \<Rightarrow> err option \<times> state" where
  "exec_upsert st dateStr s amt =
     (let st1 = sent (UpsertCost dateStr s amt) st in
      if stmt_fails st then (Some ErrStore, st1)
      else
        (case numeric_12_2 amt of
           None \<Rightarrow> (Some ErrNumericOverflow, st1)
         | Some a \<Rightarrow>
             (None, st1\<lparr>daily_costs := upsert_row (daily_costs st1) dateStr s a ''USD''\<rparr>)))"

text \<open>\<^verbatim>\<open>SELECT amount::float8 FROM daily_costs WHERE date=$1 AND service=$2\<close>, read
  with \<^verbatim>\<open>QueryRow(...).Scan\<close>: the first row, or the error of an empty result.
  \<open>query_amount\<close> gives the amount of the row as the column holds it; the cast to
  \<^verbatim>\<open>float8\<close> is applied where the detector reads the result (\<open>detect_service\<close>).\<close>

definition lookup_row :: "daily_costs_row list \<Rightarrow> date \<Rightarrow> string \<Rightarrow> daily_costs_row option" where
  "lookup_row rows d s = find (\<lambda>r. dc_date r = d \<and> dc_service r = s) rows"

definition query_amount :: "state \<Rightarrow> date \<Rightarrow> string \<Rightarrow> (err + real) \<times> state" where
  "query_amount st dateStr s =
     (let st1 = sent (SelectAmount dateStr s) st in
      if stmt_fails st then (Inl ErrStore, st1)
      else
        (case lookup_row (daily_costs st1) dateStr s of
           None \<Rightarrow> (Inl ErrNoRows, st1)
         | Some r \<Rightarrow> (Inr (dc_amount r), st1)))"

text \<open>\<^verbatim>\<open>SELECT COALESCE(AVG(amount), 0)::float8 FROM daily_costs
  WHERE service=$1 AND date < $2 AND date >= ($2::date - interval '7 days')\<close>.
  \<open>query_avg7\<close> gives the mean of the window as an exact number, 0 for an empty window;
  the rounding of \<^verbatim>\<open>AVG\<close> and the cast to \<^verbatim>\<open>float8\<close> are applied where the detector reads
  the result (\<open>avg7_float8\<close> and \<open>detect_service\<close> below).\<close>

definition window_rows :: "daily_costs_row list \<Rightarrow> string \<Rightarrow> date \<Rightarrow> daily_costs_row list" where
  "window_rows rows s d =
     filter (\<lambda>r. dc_service r = s \<and> dc_date r < d \<and> dc_date r \<ge> d - 7) rows"

definition avg7_of :: "daily_costs_row list \<Rightarrow> string \<Rightarrow> date \<Rightarrow> real" where
  "avg7_of rows s d =
     (let xs = map dc_amount (window_rows rows s d)
      in if xs = [] then 0 else sum_list xs / real (length xs))"

definition query_avg7 :: "state \<Rightarrow> string \<Rightarrow> date \<Rightarrow> (err + real) \<times> state" where
  "query_avg7 st s dateStr =
     (let st1 = sent (SelectAvg7 s dateStr) st in
      if stmt_fails st then (Inl ErrStore, st1)
      else (Inr (avg7_of (daily_costs st1) s dateStr), st1))"

section \<open>Numbers as the program reads them\<close>

text \<open>The program reads both results into variables of type \<^verbatim>\<open>float64\<close> and compares
  them in \<^verbatim>\<open>float64\<close>. A \<^verbatim>\<open>float64\<close> is the real number it stands for; \<open>float64 x\<close> is the
  \<^verbatim>\<open>float64\<close> nearest to \<open>x\<close> (IEEE 754 binary64, round to nearest, ties to even,
  subnormal numbers included). The upper end of the range is not modelled: the column
  holds at most ten digits before the decimal point, far below \<open>2 ^ 1024\<close>.

  \<open>ilog b x\<close> is the integer part of the logarithm of \<open>x > 0\<close> to base \<open>b\<close>, computed on
  integers (\<open>floorlog b n\<close> is the number of digits of \<open>n\<close> in base \<open>b\<close>).\<close>

definition ilog :: "nat \<Rightarrow> real \<Rightarrow> int" where
  "ilog b x =
     (if 1 \<le> x then int (floorlog b (nat \<lfloor>x\<rfloor>)) - 1
      else - int (floorlog b (nat (\<lceil>1 / x\<rceil> - 1))))"

definition round_half_even :: "real \<Rightarrow> int" where
  "round_half_even m =
     (let f = \<lfloor>m\<rfloor>; r = m - of_int f
      in if r < 1 / 2 then f else if 1 / 2 < r then f + 1 else if even f then f else f + 1)"

definition float64 :: "real \<Rightarrow> real" where
  "float64 x =
     (if x = 0 then 0
      else
        (let e = max (ilog 2 \<bar>x\<bar>) (- 1022);
             n = round_half_even (\<bar>x\<bar> / 2 powi (e - 52))
         in sgn x * (of_int n * 2 powi (e - 52))))"

text \<open>\<^verbatim>\<open>AVG(amount)\<close> is the sum divided by the count with Postgres' division of
  \<^verbatim>\<open>numeric\<close> values: the quotient is rounded, half away from zero, at the scale that
  \<^verbatim>\<open>select_div_scale\<close> chooses from the two operands, at least 16 significant digits.
  The weight of a \<^verbatim>\<open>numeric\<close> is the position of its first digit in base 10000; the
  display scale of the sum is 2, that of the count 0.\<close>

definition numeric_weight :: "real \<Rightarrow> int" where
  "numeric_weight x = (if x = 0 then 0 else ilog 10000 \<bar>x\<bar>)"

definition numeric_firstdigit :: "real \<Rightarrow> int" where
  "numeric_firstdigit x = (if x = 0 then 0 else \<lfloor>\<bar>x\<bar> / 10000 powi numeric_weight x\<rfloor>)"

definition select_div_scale :: "real \<Rightarrow> int \<Rightarrow> real \<Rightarrow> int \<Rightarrow> int" where
  "select_div_scale var1 dscale1 var2 dscale2 =
     (let qweight = numeric_weight var1 - numeric_weight var2;
          qweight = (if numeric_firstdigit var1 \<le> numeric_firstdigit var2
                     then qweight - 1 else qweight);
          rscale = 16 - qweight * 4;
          rscale = max rscale dscale1;
          rscale = max rscale dscale2;
          rscale = max rscale 0;
          rscale = min rscale 1000
      in rscale)"

definition numeric_round :: "real \<Rightarrow> int \<Rightarrow> real" where
  "numeric_round x rscale =
     sgn x * (of_int \<lfloor>\<bar>x\<bar> * 10 powi rscale + 1 / 2\<rfloor> / 10 powi rscale)"

text \<open>The scale of the average of the window, and the value that
  \<^verbatim>\<open>COALESCE(AVG(amount), 0)::float8\<close> puts into the variable \<^verbatim>\<open>avg7\<close>: the mean, rounded
  at that scale, then the nearest \<^verbatim>\<open>float64\<close>.\<close>

definition avg7_scale :: "daily_costs_row list \<Rightarrow> string \<Rightarrow> date \<Rightarrow> int" where
  "avg7_scale rows s d =
     (let xs = map dc_amount (window_rows rows s d)
      in select_div_scale (sum_list xs) 2 (real (length xs)) 0)"

definition avg7_float8 :: "daily_costs_row list \<Rightarrow> string \<Rightarrow> date \<Rightarrow> real" where
  "avg7_float8 rows s d = float64 (numeric_round (avg7_of rows s d) (avg7_scale rows s d))"

section \<open>Alert store\<close>

text \<open>\<^verbatim>\<open>INSERT INTO alerts(date, service, type, message) VALUES ($1, $2, 'ANOMALY', $3)\<close>;
  the id comes from the sequence of the \<^verbatim>\<open>bigserial\<close> column.\<close>

definition exec_insert_alert :: "state \<Rightarrow> date \<Rightarrow> string \<Rightarrow> message \<Rightarrow> err option \<times> state" where
  "exec_insert_alert st dateStr s msg =
     (let st1 = sent (InsertAlert dateStr s msg) st in
      if stmt_fails st then (Some ErrStore, st1)
      else
        (None, st1\<lparr>alerts := alerts st1 @
                   [\<lparr>al_id = Suc (alerts_id_seq st1), al_date = dateStr, al_service = s,
                     al_type = ''ANOMALY'', al_message = msg\<rparr>],
                 alerts_id_seq := Suc (alerts_id_seq st1)\<rparr>))"

section \<open>Anomaly detector\<close>

definition services :: "string list" where
  "services = [''compute'', ''storage'', ''db'', ''network'']"

text \<open>The body of the loop of \<^verbatim>\<open>detectAnomaliesForDate\<close> for one service. \<^verbatim>\<open>Scan\<close> puts
  the two results into \<^verbatim>\<open>float64\<close> variables: \<^verbatim>\<open>amount::float8\<close> is the \<^verbatim>\<open>float64\<close>
  nearest to the amount of the row, and the average arrives as \<open>avg7_float8\<close> says. The
  product \<^verbatim>\<open>1.5*avg7\<close> is a \<^verbatim>\<open>float64\<close> product.\<close>

definition detect_service :: "state \<Rightarrow> date \<Rightarrow> string \<Rightarrow> err option \<times> state" where
  "detect_service st dateStr s =
     (case query_amount st dateStr s of
        (Inl e, st1) \<Rightarrow> (Some e, st1)
      | (Inr amount, st1) \<Rightarrow>
          (case query_avg7 st1 s dateStr of
             (Inl e, st2) \<Rightarrow> (Some e, st2)
           | (Inr mean, st2) \<Rightarrow>
               (let today = float64 amount;
                    avg7 = float64 (numeric_round mean (avg7_scale (daily_costs st1) s dateStr))
                in if avg7 > 0 \<and> today > float64 (1.5 * avg7) then
                     (let msg = CostSpike s today avg7 in
                      case exec_insert_alert st2 dateStr s msg of
                        (Some e, st3) \<Rightarrow> (Some e, st3)
                      | (None, st3) \<Rightarrow> (None, log_Println (LogAlert msg) st3))
                   else (None, st2))))"

fun detect_loop :: "state \<Rightarrow> date \<Rightarrow> string list \<Rightarrow> err option \<times> state" where
  "detect_loop st dateStr [] = (None, st)"
| "detect_loop st dateStr (s # ss) =
     (case detect_service st dateStr s of
        (Some e, st1) \<Rightarrow> (Some e, st1)
      | (None, st1) \<Rightarrow> detect_loop st1 dateStr ss)"

definition detectAnomaliesForDate :: "state \<Rightarrow> time \<Rightarrow> err option \<times> state" where
  "detectAnomaliesForDate st day = detect_loop st (Format_date day) services"

text \<open>The alerts of one date and service.\<close>

definition alerts_for :: "state \<Rightarrow> date \<Rightarrow> string \<Rightarrow> alerts_row list" where
  "alerts_for st d s = filter (\<lambda>a. al_date a = d \<and> al_service a = s) (alerts st)"


text \<open>The primary key of \<^verbatim>\<open>daily_costs\<close>: no two rows share date and service.\<close>

definition primary_key_ok :: "daily_costs_row list \<Rightarrow> bool" where
  "primary_key_ok rows = distinct (map (\<lambda>r. (dc_date r, dc_service r)) rows)"

section \<open>Cost sampler\<close>

text \<open>\<^verbatim>\<open>math/rand\<close> is not part of the program: a generator is any state type with
  the three operations the program calls, \<^verbatim>\<open>rand.New(rand.NewSource(seed))\<close>,
  \<^verbatim>\<open>Intn\<close> and \<^verbatim>\<open>Float64\<close>; each draw returns the value and the next state.
  \<open>rand_ok\<close> is the contract of the library: \<^verbatim>\<open>Intn(n)\<close> is in \<open>[0, n)\<close> and
  \<^verbatim>\<open>Float64()\<close> in \<open>[0, 1)\<close>.\<close>

record 'r rand =
  NewSource :: "int \<Rightarrow> 'r"
  Intn :: "'r \<Rightarrow> nat \<Rightarrow> nat \<times> 'r"
  Float64 :: "'r \<Rightarrow> real \<times> 'r"

definition rand_ok :: "'r rand \<Rightarrow> bool" where
  "rand_ok R \<longleftrightarrow>
     (\<forall>r n. 0 < n \<longrightarrow> fst (Intn R r n) < n) \<and>
     (\<forall>r. 0 \<le> fst (Float64 R r) \<and> fst (Float64 R r) < 1)"

text \<open>The map literal \<^verbatim>\<open>baseline\<close>; a Go map returns zero for a missing key.\<close>

definition baseline :: "string \<Rightarrow> real" where
  "baseline s =
     (case map_of [(''compute'', 3.0), (''storage'', 0.8), (''db'', 1.5), (''network'', 0.6)] s of
        Some b \<Rightarrow> b
      | None \<Rightarrow> 0)"

text \<open>The amount of service \<open>s\<close> from the draw \<open>u\<close> of \<^verbatim>\<open>rng.Float64()\<close>, computed on real
  numbers.\<close>

definition sample_amount :: "real \<Rightarrow> string \<Rightarrow> string \<Rightarrow> real" where
  "sample_amount u s spikeService =
     (let noise = u * 0.6 - 0.3;
          amt = baseline s + noise;
          amt = (if amt < 0.05 then 0.05 else amt);
          amt = (if s = spikeService then amt * 3.0 else amt)
      in amt)"

fun insert_loop :: "'r rand \<Rightarrow> state \<Rightarrow> 'r \<Rightarrow> date \<Rightarrow> string \<Rightarrow> string list \<Rightarrow> err option \<times> state \<times> 'r" where
  "insert_loop R st rng dateStr spikeService [] = (None, st, rng)"
| "insert_loop R st rng dateStr spikeService (s # ss) =
     (let amt = sample_amount (fst (Float64 R rng)) s spikeService;
          rng1 = snd (Float64 R rng)
      in case exec_upsert st dateStr s amt of
           (Some e, st1) \<Rightarrow> (Some e, st1, rng1)
         | (None, st1) \<Rightarrow> insert_loop R st1 rng1 dateStr spikeService ss)"

text \<open>\<^verbatim>\<open>services[rng.Intn(len(services))]\<close> panics when the index is out of range.\<close>

definition insertSimulatedDay :: "'r rand \<Rightarrow> state \<Rightarrow> 'r \<Rightarrow> time \<Rightarrow> err option \<times> state \<times> 'r" where
  "insertSimulatedDay R st rng day =
     (let dateStr = Format_date day;
          rng1 = snd (Intn R rng 14)
      in if fst (Intn R rng 14) = 0 then
           (let j = fst (Intn R rng1 (length services));
                rng2 = snd (Intn R rng1 (length services))
            in if j < length services
               then insert_loop R st rng2 dateStr (services ! j) services
               else (Some PanicIndexOutOfRange, st, rng2))
         else insert_loop R st rng1 dateStr '''' services)"

section \<open>Scheduler\<close>

text \<open>The readings of the clock are arguments: \<open>seed_time\<close> is the reading whose
  \<^verbatim>\<open>UnixNano()\<close> seeds the generator, \<open>today\<close> the reading \<^verbatim>\<open>time.Now().UTC()\<close>.\<close>

definition generateAndCheckToday :: "'r rand \<Rightarrow> state \<Rightarrow> time \<Rightarrow> time \<Rightarrow> err option \<times> state" where
  "generateAndCheckToday R st seed_time today =
     (let rng = NewSource R seed_time
      in case insertSimulatedDay R st rng today of
           (Some e, st1, rng1) \<Rightarrow> (Some e, st1)
         | (None, st1, rng1) \<Rightarrow> detectAnomaliesForDate st1 today)"

fun backfill_loop :: "'r rand \<Rightarrow> state \<Rightarrow> 'r \<Rightarrow> time \<Rightarrow> nat list \<Rightarrow> err option \<times> state \<times> 'r" where
  "backfill_loop R st rng start [] = (None, st, rng)"
| "backfill_loop R st rng start (i # is) =
     (let d = AddDate start (int i)
      in case insertSimulatedDay R st rng d of
           (Some e, st1, rng1) \<Rightarrow> (Some e, st1, rng1)
         | (None, st1, rng1) \<Rightarrow> backfill_loop R st1 rng1 start is)"

definition backfill :: "'r rand \<Rightarrow> state \<Rightarrow> time \<Rightarrow> int \<Rightarrow> time \<Rightarrow> time \<Rightarrow> err option \<times> state" where
  "backfill R st now days seed_time today =
     (let seed = 42;
          rng = NewSource R seed;
          start = AddDate now (- days + 1)
      in case backfill_loop R st rng start [0..<nat days] of
           (Some e, st1, rng1) \<Rightarrow> (Some e, st1)
         | (None, st1, rng1) \<Rightarrow> generateAndCheckToday R st1 seed_time today)"

text \<open>The goroutine of \<^verbatim>\<open>main\<close>: one backfill of 14 days, then one call of
  \<^verbatim>\<open>generateAndCheckToday\<close> for every tick of the ticker. A tick is the pair of clock
  readings of that call. An error is logged; a panic ends the process.\<close>

datatype proc = Running | Crashed

definition scheduler_tick :: "'r rand \<Rightarrow> state \<Rightarrow> time \<times> time \<Rightarrow> proc \<times> state" where
  "scheduler_tick R st tick =
     (case generateAndCheckToday R st (fst tick) (snd tick) of
        (None, st1) \<Rightarrow> (Running, st1)
      | (Some e, st1) \<Rightarrow>
          if is_panic e then (Crashed, st1)
          else (Running, log_Println (LogSchedulerError e) st1))"

fun scheduler_loop :: "'r rand \<Rightarrow> state \<Rightarrow> (time \<times> time) list \<Rightarrow> proc \<times> state" where
  "scheduler_loop R st [] = (Running, st)"
| "scheduler_loop R st (tick # ticks) =
     (case scheduler_tick R st tick of
        (Crashed, st1) \<Rightarrow> (Crashed, st1)
      | (Running, st1) \<Rightarrow> scheduler_loop R st1 ticks)"

definition scheduler :: "'r rand \<Rightarrow> state \<Rightarrow> time \<Rightarrow> time \<times> time \<Rightarrow> (time \<times> time) list \<Rightarrow> proc \<times> state" where
  "scheduler R st now tick0 ticks =
     (case backfill R st now 14 (fst tick0) (snd tick0) of
        (None, st1) \<Rightarrow> scheduler_loop R st1 ticks
      | (Some e, st1) \<Rightarrow>
          if is_panic e then (Crashed, st1)
          else scheduler_loop R (log_Println (LogBackfillError e) st1) ticks)"

section \<open>HTTP handlers\<close>

text \<open>A request is its method and the values of the query parameters the handlers
  read (\<^verbatim>\<open>r.URL.Query().Get\<close> gives the empty string for an absent parameter). A
  response is its status code; the bodies are not modelled. A panic of a handler
  aborts the connection.\<close>

record request =
  req_method :: string
  q_from :: string
  q_to :: string
  q_days :: string

datatype response = Status nat | Aborted

text \<open>\<^verbatim>\<open>fmt.Sscanf(v, "%d", &days)\<close> on the bytes of \<open>v\<close>. Leading spaces are skipped:
  the runes of \<^verbatim>\<open>fmt\<close>'s table of spaces, in their UTF-8 encoding; a newline is an error
  (\<^verbatim>\<open>Sscanf\<close> does not take newlines for spaces). Then one optional sign and the longest
  run of the digits \<^verbatim>\<open>0123456789\<close> are read, at least one, and the token is converted
  by \<^verbatim>\<open>strconv.ParseInt(tok, 10, 64)\<close>; what follows the token is not read. \<open>None\<close>: the
  scan fails and \<^verbatim>\<open>days\<close> keeps its value (the handler ignores the error). An \<^verbatim>\<open>int\<close> has
  64 bits.\<close>

definition space_width :: "string \<Rightarrow> nat" where
  "space_width s =
     (case s of
        [] \<Rightarrow> 0
      | c # cs \<Rightarrow>
          if c \<in> set [CHR 0x09, CHR 0x0B, CHR 0x0C, CHR 0x0D, CHR 0x20] then 1
          else if c = CHR 0xC2 \<and> (take 1 cs = [CHR 0x85] \<or> take 1 cs = [CHR 0xA0]) then 2
          else if c = CHR 0xE1 \<and> take 2 cs = [CHR 0x9A, CHR 0x80] then 3
          else if c = CHR 0xE2 \<and> take 1 cs = [CHR 0x80] \<and> length cs \<ge> 2
                  \<and> ((0x80 \<le> (of_char (cs ! 1) :: nat) \<and> (of_char (cs ! 1) :: nat) \<le> 0x8A)
                     \<or> cs ! 1 \<in> set [CHR 0xA8, CHR 0xA9, CHR 0xAF]) then 3
          else if c = CHR 0xE2 \<and> take 2 cs = [CHR 0x81, CHR 0x9F] then 3
          else if c = CHR 0xE3 \<and> take 2 cs = [CHR 0x80, CHR 0x80] then 3
          else 0)"

fun skip_space :: "string \<Rightarrow> string option" where
  "skip_space [] = Some []"
| "skip_space (c # cs) =
     (if c = CHR 0x0A then None
      else if space_width (c # cs) = 0 then Some (c # cs)
      else skip_space (drop (space_width (c # cs) - 1) cs))"

definition is_digit :: "char \<Rightarrow> bool" where
  "is_digit c \<longleftrightarrow> 48 \<le> (of_char c :: nat) \<and> (of_char c :: nat) \<le> 57"

definition decimal_value :: "string \<Rightarrow> nat" where
  "decimal_value tok = foldl (\<lambda>n c. 10 * n + (of_char c - 48)) 0 tok"

definition sscanf_d :: "string \<Rightarrow> int option" where
  "sscanf_d v =
     (case skip_space v of
        None \<Rightarrow> None
      | Some s \<Rightarrow>
          (let neg = (s \<noteq> [] \<and> hd s = CHR ''-'');
               s1 = (if s \<noteq> [] \<and> (hd s = CHR ''-'' \<or> hd s = CHR ''+'') then tl s else s);
               tok = takeWhile is_digit s1;
               n = (if neg then - int (decimal_value tok) else int (decimal_value tok))
           in if tok = [] \<or> n < - (2 ^ 63) \<or> n > 2 ^ 63 - 1 then None else Some n))"

text \<open>The handlers of \<^verbatim>\<open>/costs\<close> and \<^verbatim>\<open>/alerts\<close>. They test only that the two
  parameters are not empty; the texts go to the store as they are, and whether Postgres
  can read them as dates is part of the outcome of the statement. An error that
  \<^verbatim>\<open>Query\<close> returns is answered with status 500. The handlers never read \<^verbatim>\<open>rows.Err()\<close>:
  when the server returns an error for the statement, for a text that is not a date
  say, \<^verbatim>\<open>rows.Next()\<close> is false and the answer is status 200 with an empty result.\<close>

definition handle_costs :: "state \<Rightarrow> request \<Rightarrow> response \<times> state" where
  "handle_costs st req =
     (let from = q_from req; to = q_to req
      in if from = '''' \<or> to = '''' then (Status 400, st)
         else
           (let st1 = sent (SelectCosts from to) st
            in if query_fails st then (Status 500, st1) else (Status 200, st1)))"

definition handle_alerts :: "state \<Rightarrow> request \<Rightarrow> response \<times> state" where
  "handle_alerts st req =
     (let from = q_from req; to = q_to req
      in if from = '''' \<or> to = '''' then (Status 400, st)
         else
           (let st1 = sent (SelectAlerts from to) st
            in if query_fails st then (Status 500, st1) else (Status 200, st1)))"

text \<open>The handler of \<^verbatim>\<open>/simulate/backfill\<close>; \<open>now\<close>, \<open>seed_time\<close> and \<open>today\<close> are the
  clock readings of the backfill it starts.\<close>

definition handle_backfill :: "'r rand \<Rightarrow> state \<Rightarrow> request \<Rightarrow> time \<Rightarrow> time \<Rightarrow> time \<Rightarrow> response \<times> state" where
  "handle_backfill R st req now seed_time today =
     (if req_method req \<noteq> ''POST'' then (Status 405, st)
      else
        (let v = q_days req;
             days = (if v \<noteq> '''' then (case sscanf_d v of Some n \<Rightarrow> n | None \<Rightarrow> 30) else 30)
         in if days < 1 \<or> days > 365 then (Status 400, st)
            else
              (case backfill R st now days seed_time today of
                 (Some e, st1) \<Rightarrow> if is_panic e then (Aborted, st1) else (Status 500, st1)
               | (None, st1) \<Rightarrow> (Status 200, st1))))"

section \<open>Observing a run\<close>

text \<open>The statements a call has sent: the part of the trace after the call that was not
  there before.\<close>

definition new_trace :: "state \<Rightarrow> state \<Rightarrow> stmt list" where
  "new_trace st st' = drop (length (trace st)) (trace st')"

text \<open>What a statement of the trace is about.\<close>

fun stmt_service :: "stmt \<Rightarrow> string option" where
  "stmt_service (UpsertCost d s a) = Some s"
| "stmt_service (SelectAmount d s) = Some s"
| "stmt_service (SelectAvg7 s d) = Some s"
| "stmt_service (InsertAlert d s m) = Some s"
| "stmt_service (SelectCosts f t) = None"
| "stmt_service (SelectAlerts f t) = None"

fun stmt_date :: "stmt \<Rightarrow> date option" where
  "stmt_date (UpsertCost d s a) = Some d"
| "stmt_date (SelectAmount d s) = Some d"
| "stmt_date (SelectAvg7 s d) = Some d"
| "stmt_date (InsertAlert d s m) = Some d"
| "stmt_date (SelectCosts f t) = None"
| "stmt_date (SelectAlerts f t) = None"

fun is_upsert :: "stmt \<Rightarrow> bool" where
  "is_upsert (UpsertCost d s a) = True"
| "is_upsert _ = False"

text \<open>The service and the amount of an upsert of the trace.\<close>

fun upsert_pair :: "stmt \<Rightarrow> (string \<times> real) option" where
  "upsert_pair (UpsertCost d s a) = Some (s, a)"
| "upsert_pair _ = None"

text \<open>A sequence of upserts, each a date, a service and an amount, run in order; the
  result is the list of the errors returned and the final state.\<close>

fun upsert_all :: "state \<Rightarrow> (date \<times> string \<times> real) list \<Rightarrow> err option list \<times> state" where
  "upsert_all st [] = ([], st)"
| "upsert_all st ((d, s, a) # ws) =
     (let r1 = exec_upsert st d s a;
          r2 = upsert_all (snd r1) ws
      in (fst r1 # fst r2, snd r2))"

text \<open>The rows of the table with a given key.\<close>

definition rows_of_key :: "state \<Rightarrow> date \<Rightarrow> string \<Rightarrow> daily_costs_row list" where
  "rows_of_key st d s = filter (\<lambda>r. dc_date r = d \<and> dc_service r = s) (daily_costs st)"

section \<open>The sampler without the store\<close>

text \<open>What \<^verbatim>\<open>insertSimulatedDay\<close> computes from the generator alone, for draws within
  the contract of the library: the state of the generator when the loop starts, the
  service that spikes, and the amount of every service in the order of the loop.\<close>

fun loop_amounts :: "'r rand \<Rightarrow> 'r \<Rightarrow> string \<Rightarrow> string list \<Rightarrow> (string \<times> real) list" where
  "loop_amounts R rng spikeService [] = []"
| "loop_amounts R rng spikeService (s # ss) =
     (s, sample_amount (fst (Float64 R rng)) s spikeService)
       # loop_amounts R (snd (Float64 R rng)) spikeService ss"

fun loop_rng :: "'r rand \<Rightarrow> 'r \<Rightarrow> string list \<Rightarrow> 'r" where
  "loop_rng R rng [] = rng"
| "loop_rng R rng (s # ss) = loop_rng R (snd (Float64 R rng)) ss"

definition day_spike :: "'r rand \<Rightarrow> 'r \<Rightarrow> string" where
  "day_spike R rng =
     (if fst (Intn R rng 14) = 0
      then services ! fst (Intn R (snd (Intn R rng 14)) (length services))
      else '''')"

definition day_rng :: "'r rand \<Rightarrow> 'r \<Rightarrow> 'r" where
  "day_rng R rng =
     (if fst (Intn R rng 14) = 0
      then snd (Intn R (snd (Intn R rng 14)) (length services))
      else snd (Intn R rng 14))"

definition day_amounts :: "'r rand \<Rightarrow> 'r \<Rightarrow> (string \<times> real) list" where
  "day_amounts R rng = loop_amounts R (day_rng R rng) (day_spike R rng) services"

text \<open>The upserts of the loop of \<^verbatim>\<open>backfill\<close>, day after day, with the generator handed
  from one day to the next.\<close>

fun backfill_stmts :: "'r rand \<Rightarrow> 'r \<Rightarrow> time \<Rightarrow> nat list \<Rightarrow> stmt list" where
  "backfill_stmts R rng start [] = []"
| "backfill_stmts R rng start (i # is) =
     map (\<lambda>(s, a). UpsertCost (Format_date (AddDate start (int i))) s a) (day_amounts R rng)
       @ backfill_stmts R (loop_rng R (day_rng R rng) services) start is"

section \<open>Concrete inputs\<close>

text \<open>The empty database, and a small generator that satisfies the contract of the
  library, for evaluating the program on concrete inputs.\<close>

definition empty_state :: state where
  "empty_state = \<lparr>daily_costs = [], alerts = [], alerts_id_seq = 0, trace = [],
                   faults = [], logged = []\<rparr>"

definition counter_rand :: "nat rand" where
  "counter_rand = \<lparr>NewSource = (\<lambda>seed. nat \<bar>seed\<bar>),
                    Intn = (\<lambda>r n. (r mod n, Suc r)),
                    Float64 = (\<lambda>r. (real (r mod 10) / 10, Suc r))\<rparr>"

text \<open>States used as concrete inputs: the service ''storage'' has a history of 10.00
  and costs 20.00 on day 0 while ''compute'' has no row for day 0; and ''compute'' has
  a history of 10.00 and a row for day 0, the only row of that day.\<close>

definition storage_only_state :: state where
  "storage_only_state = empty_state\<lparr>daily_costs :=
     [\<lparr>dc_date = - 1, dc_service = ''storage'', dc_amount = 10, dc_currency = ''USD''\<rparr>,
      \<lparr>dc_date = 0, dc_service = ''storage'', dc_amount = 20, dc_currency = ''USD''\<rparr>]\<rparr>"

definition compute_state :: "real \<Rightarrow> state" where
  "compute_state today = empty_state\<lparr>daily_costs :=
     [\<lparr>dc_date = - 1, dc_service = ''compute'', dc_amount = 10, dc_currency = ''USD''\<rparr>,
      \<lparr>dc_date = 0, dc_service = ''compute'', dc_amount = today, dc_currency = ''USD''\<rparr>]\<rparr>"

text \<open>''storage'' has a history of 10.00 and costs 15.01 on day 0; ''compute'', which is
  evaluated before it, has a row for day 0 and no history.\<close>

definition storage_spike_state :: state where
  "storage_spike_state = empty_state\<lparr>daily_costs :=
     [\<lparr>dc_date = - 1, dc_service = ''storage'', dc_amount = 10, dc_currency = ''USD''\<rparr>,
      \<lparr>dc_date = 0, dc_service = ''compute'', dc_amount = 3, dc_currency = ''USD''\<rparr>,
      \<lparr>dc_date = 0, dc_service = ''storage'', dc_amount = 15.01, dc_currency = ''USD''\<rparr>]\<rparr>"

text \<open>Two days of the four services, as a backfill of two days can leave them:
  ''network'' costs 0.60 on day -1 and 0.90 on day 0, the other services cost the same
  on both days.\<close>

definition threshold_state :: state where
  "threshold_state = empty_state\<lparr>daily_costs :=
     [\<lparr>dc_date = - 1, dc_service = ''compute'', dc_amount = 3, dc_currency = ''USD''\<rparr>,
      \<lparr>dc_date = - 1, dc_service = ''storage'', dc_amount = 0.8, dc_currency = ''USD''\<rparr>,
      \<lparr>dc_date = - 1, dc_service = ''db'', dc_amount = 1.5, dc_currency = ''USD''\<rparr>,
      \<lparr>dc_date = - 1, dc_service = ''network'', dc_amount = 0.6, dc_currency = ''USD''\<rparr>,
      \<lparr>dc_date = 0, dc_service = ''compute'', dc_amount = 3, dc_currency = ''USD''\<rparr>,
      \<lparr>dc_date = 0, dc_service = ''storage'', dc_amount = 0.8, dc_currency = ''USD''\<rparr>,
      \<lparr>dc_date = 0, dc_service = ''db'', dc_amount = 1.5, dc_currency = ''USD''\<rparr>,
      \<lparr>dc_date = 0, dc_service = ''network'', dc_amount = 0.9, dc_currency = ''USD''\<rparr>]\<rparr>"

section \<open>Basic facts about the state\<close>

lemma sent_fields [simp]:
  "daily_costs (sent q st) = daily_costs st"
  "alerts (sent q st) = alerts st"
  "alerts_id_seq (sent q st) = alerts_id_seq st"
  "logged (sent q st) = logged st"
  "trace (sent q st) = trace st @ [q]"
  "faults (sent q st) = tl (faults st)"
  by (simp_all add: sent_def)

lemma stmt_fails_no_faults [simp]: "faults st = [] \<Longrightarrow> \<not> stmt_fails st"
  by (simp add: stmt_fails_def)

lemma float64_zero [simp]: "float64 0 = 0"
  by (simp add: float64_def)

lemma numeric_round_zero [simp]: "numeric_round 0 k = 0"
  by (simp add: numeric_round_def)

lemma avg7_float8_no_history: "avg7_of rows s d = 0 \<Longrightarrow> avg7_float8 rows s d = 0"
  by (simp add: avg7_float8_def)

lemma log_Println_fields [simp]:
  "daily_costs (log_Println l st) = daily_costs st"
  "alerts (log_Println l st) = alerts st"
  "alerts_id_seq (log_Println l st) = alerts_id_seq st"
  "logged (log_Println l st) = logged st @ [l]"
  "trace (log_Println l st) = trace st"
  "faults (log_Println l st) = faults st"
  by (simp_all add: log_Println_def)

lemma alerts_for_simps [simp]:
  "alerts_for (sent q st) d s = alerts_for st d s"
  "alerts_for (log_Println l st) d s = alerts_for st d s"
  by (simp_all add: alerts_for_def)

lemma Format_date_AddDate [simp]: "Format_date (AddDate t n) = Format_date t + n"
  by (simp add: Format_date_def AddDate_def nanos_per_day_def)

lemma Format_date_0 [simp]: "Format_date 0 = 0"
  by (simp add: Format_date_def)

section \<open>The detector reads the costs and only appends alerts\<close>

lemma detect_service_daily_costs [simp]:
  "daily_costs (snd (detect_service st d s)) = daily_costs st"
  by (simp add: detect_service_def query_amount_def query_avg7_def exec_insert_alert_def
      Let_def split: option.splits)

lemma detect_loop_daily_costs [simp]:
  "daily_costs (snd (detect_loop st d ss)) = daily_costs st"
proof (induction ss arbitrary: st)
  case Nil
  show ?case by simp
next
  case (Cons s ss)
  have "daily_costs (snd (detect_service st d s)) = daily_costs st" by simp
  with Cons show ?case
    by (cases "detect_service st d s") (auto split: option.splits)
qed

lemma detect_service_other:
  "s' \<noteq> s \<Longrightarrow> alerts_for (snd (detect_service st d s')) d s = alerts_for st d s"
  by (simp add: detect_service_def query_amount_def query_avg7_def exec_insert_alert_def
      Let_def alerts_for_def split: option.splits)

lemma detect_service_no_history:
  "avg7_of (daily_costs st) s d = 0 \<Longrightarrow> alerts (snd (detect_service st d s)) = alerts st"
  by (simp add: detect_service_def query_amount_def query_avg7_def exec_insert_alert_def
      Let_def split: option.splits)

lemma detect_loop_no_history:
  "avg7_of (daily_costs st) s d = 0 \<Longrightarrow>
   alerts_for (snd (detect_loop st d ss)) d s = alerts_for st d s"
proof (induction ss arbitrary: st)
  case Nil
  show ?case by simp
next
  case (Cons s' ss)
  obtain e st1 where step: "detect_service st d s' = (e, st1)"
    by (cases "detect_service st d s'")
  have dc: "daily_costs st1 = daily_costs st"
    using detect_service_daily_costs [of st d s'] step by simp
  have same: "alerts_for st1 d s = alerts_for st d s"
  proof (cases "s' = s")
    case True
    with Cons.prems detect_service_no_history [of st s d] step show ?thesis
      by (simp add: alerts_for_def)
  next
    case False
    with detect_service_other [of s' s st d] step show ?thesis by simp
  qed
  show ?case
  proof (cases e)
    case None
    with Cons.IH [of st1] Cons.prems dc same step show ?thesis by simp
  next
    case (Some a)
    with same step show ?thesis by simp
  qed
qed

section \<open>Cold start\<close>

text \<open>
  Claim C3. For every service whose trailing 7-day average is 0 (no prior history),
  \<^verbatim>\<open>detectAnomaliesForDate\<close> raises no alert for that service on that day, whatever the
  day's amount is, whatever the other services do and whether or not the store fails
  during the call: the alerts of that date and service are the same before and after.
\<close>

theorem cold_start_no_alert:
  assumes "avg7_of (daily_costs st) s (Format_date day) = 0"
  shows "alerts_for (snd (detectAnomaliesForDate st day)) (Format_date day) s
         = alerts_for st (Format_date day) s"
  using assms by (simp add: detectAnomaliesForDate_def detect_loop_no_history)

text \<open>On the first day of ''compute'', an amount of one million raises nothing.\<close>

theorem cold_start_no_alert_witness:
  "avg7_of (daily_costs (empty_state\<lparr>daily_costs :=
       [\<lparr>dc_date = 0, dc_service = ''compute'', dc_amount = 1000000, dc_currency = ''USD''\<rparr>]\<rparr>))
     ''compute'' (Format_date 0) = 0
   \<and> alerts_for (snd (detectAnomaliesForDate (empty_state\<lparr>daily_costs :=
       [\<lparr>dc_date = 0, dc_service = ''compute'', dc_amount = 1000000, dc_currency = ''USD''\<rparr>]\<rparr>) 0))
       (Format_date 0) ''compute'' = []"
proof -
  let ?st = "empty_state\<lparr>daily_costs :=
       [\<lparr>dc_date = 0, dc_service = ''compute'', dc_amount = 1000000, dc_currency = ''USD''\<rparr>]\<rparr>"
  have h: "avg7_of (daily_costs ?st) ''compute'' (Format_date 0) = 0"
    by (simp add: empty_state_def avg7_of_def window_rows_def)
  have "alerts_for ?st (Format_date 0) ''compute'' = []"
    by (simp add: empty_state_def alerts_for_def)
  with cold_start_no_alert [OF h] h show ?thesis by simp
qed

section \<open>The loop of the detector\<close>

lemma detect_loop_append:
  "detect_loop st d (xs @ ys) =
     (case detect_loop st d xs of
        (Some e, st1) \<Rightarrow> (Some e, st1)
      | (None, st1) \<Rightarrow> detect_loop st1 d ys)"
  by (induction xs arbitrary: st) (auto split: prod.splits option.splits)

lemma detect_service_trace:
  "\<exists>new. trace (snd (detect_service st d s)) = trace st @ new \<and>
         (\<forall>q \<in> set new. \<not> is_upsert q \<and> stmt_date q = Some d \<and> stmt_service q = Some s)"
  by (simp add: detect_service_def query_amount_def query_avg7_def exec_insert_alert_def
      Let_def split: option.splits)

lemma detect_loop_trace:
  "\<exists>new. trace (snd (detect_loop st d ss)) = trace st @ new \<and>
         (\<forall>q \<in> set new. \<not> is_upsert q \<and> stmt_date q = Some d \<and>
                          (\<exists>x \<in> set ss. stmt_service q = Some x))"
proof (induction ss arbitrary: st)
  case Nil
  show ?case by simp
next
  case (Cons s ss)
  obtain e st1 where step: "detect_service st d s = (e, st1)"
    by (cases "detect_service st d s")
  from detect_service_trace [of st d s] step obtain n1 where
    n1: "trace st1 = trace st @ n1"
      "\<forall>q \<in> set n1. \<not> is_upsert q \<and> stmt_date q = Some d \<and> stmt_service q = Some s"
    by auto
  show ?case
  proof (cases e)
    case (Some a)
    with step n1 show ?thesis by auto
  next
    case None
    from Cons.IH [of st1] obtain n2 where
      n2: "trace (snd (detect_loop st1 d ss)) = trace st1 @ n2"
        "\<forall>q \<in> set n2. \<not> is_upsert q \<and> stmt_date q = Some d \<and>
                          (\<exists>x \<in> set ss. stmt_service q = Some x)"
      by auto
    have "trace (snd (detect_loop st d (s # ss))) = trace st @ (n1 @ n2)"
      using None step n1(1) n2(1) by simp
    moreover have "\<forall>q \<in> set (n1 @ n2). \<not> is_upsert q \<and> stmt_date q = Some d \<and>
                          (\<exists>x \<in> set (s # ss). stmt_service q = Some x)"
      using n1(2) n2(2) by auto
    ultimately show ?thesis by blast
  qed
qed


lemma detect_loop_other:
  "s \<notin> set ss \<Longrightarrow> alerts_for (snd (detect_loop st d ss)) d s = alerts_for st d s"
proof (induction ss arbitrary: st)
  case Nil
  show ?case by simp
next
  case (Cons s' ss)
  then have ne: "s' \<noteq> s" and notin: "s \<notin> set ss" by auto
  obtain e st1 where step: "detect_service st d s' = (e, st1)"
    by (cases "detect_service st d s'")
  from detect_service_other [OF ne, of st d] step
  have same: "alerts_for st1 d s = alerts_for st d s" by simp
  show ?case
  proof (cases e)
    case None
    with Cons.IH [OF notin, of st1] same step show ?thesis by simp
  next
    case (Some a)
    with same step show ?thesis by simp
  qed
qed

lemma detect_service_present:
  assumes "faults st = []" and "lookup_row (daily_costs st) d s = Some r"
  shows "fst (detect_service st d s) = None"
    and "faults (snd (detect_service st d s)) = []"
    and "map al_message (alerts_for (snd (detect_service st d s)) d s) =
         map al_message (alerts_for st d s) @
           (if 0 < avg7_float8 (daily_costs st) s d
               \<and> float64 (dc_amount r) > float64 (1.5 * avg7_float8 (daily_costs st) s d)
            then [CostSpike s (float64 (dc_amount r)) (avg7_float8 (daily_costs st) s d)]
            else [])"
  using assms
  by (simp_all add: detect_service_def query_amount_def query_avg7_def exec_insert_alert_def
      Let_def alerts_for_def avg7_float8_def)

lemma detect_service_missing:
  assumes "faults st = []" and "lookup_row (daily_costs st) d s = None"
  shows "detect_service st d s = (Some ErrNoRows, sent (SelectAmount d s) st)"
  using assms by (simp add: detect_service_def query_amount_def Let_def)

lemma detect_loop_present:
  assumes "faults st = []" and "\<forall>s \<in> set ss. lookup_row (daily_costs st) d s \<noteq> None"
  shows "fst (detect_loop st d ss) = None \<and> faults (snd (detect_loop st d ss)) = []"
  using assms
proof (induction ss arbitrary: st)
  case Nil
  then show ?case by simp
next
  case (Cons s ss)
  then obtain r where r: "lookup_row (daily_costs st) d s = Some r" by auto
  obtain e st1 where step: "detect_service st d s = (e, st1)"
    by (cases "detect_service st d s")
  from detect_service_present(1,2) [OF Cons.prems(1) r] step
  have e: "e = None" and f1: "faults st1 = []" by simp_all
  have dc: "daily_costs st1 = daily_costs st"
    using detect_service_daily_costs [of st d s] step by simp
  from Cons.prems(2) dc have "\<forall>s \<in> set ss. lookup_row (daily_costs st1) d s \<noteq> None" by simp
  from Cons.IH [OF f1 this] step e show ?case by simp
qed

lemma distinct_services: "distinct services"
  by (simp add: services_def)

lemma detect_loop_rule:
  assumes nf: "faults st = []"
    and split: "ss = pre @ s # post" and dist: "distinct ss"
    and pre: "\<forall>s' \<in> set pre. lookup_row (daily_costs st) d s' \<noteq> None"
    and r: "lookup_row (daily_costs st) d s = Some r"
  shows "map al_message (alerts_for (snd (detect_loop st d ss)) d s) =
         map al_message (alerts_for st d s) @
           (if 0 < avg7_float8 (daily_costs st) s d
               \<and> float64 (dc_amount r) > float64 (1.5 * avg7_float8 (daily_costs st) s d)
            then [CostSpike s (float64 (dc_amount r)) (avg7_float8 (daily_costs st) s d)]
            else [])"
proof -
  from split dist have s_pre: "s \<notin> set pre" and s_post: "s \<notin> set post" by auto
  obtain st1 where l1: "detect_loop st d pre = (None, st1)" and f1: "faults st1 = []"
    using detect_loop_present [OF nf pre] by (cases "detect_loop st d pre") auto
  have dc1: "daily_costs st1 = daily_costs st"
    using detect_loop_daily_costs [of st d pre] l1 by simp
  have a1: "alerts_for st1 d s = alerts_for st d s"
    using detect_loop_other [OF s_pre, of st d] l1 by simp
  from r dc1 have r1: "lookup_row (daily_costs st1) d s = Some r" by simp
  obtain st2 where l2: "detect_service st1 d s = (None, st2)"
    using detect_service_present(1) [OF f1 r1] by (cases "detect_service st1 d s") auto
  have a2: "map al_message (alerts_for st2 d s) =
         map al_message (alerts_for st d s) @
           (if 0 < avg7_float8 (daily_costs st) s d
               \<and> float64 (dc_amount r) > float64 (1.5 * avg7_float8 (daily_costs st) s d)
            then [CostSpike s (float64 (dc_amount r)) (avg7_float8 (daily_costs st) s d)]
            else [])"
    using detect_service_present(3) [OF f1 r1] l2 a1 dc1 by simp
  have "detect_loop st d ss = detect_loop st2 d post"
    using split l1 l2 by (simp add: detect_loop_append)
  moreover have "alerts_for (snd (detect_loop st2 d post)) d s = alerts_for st2 d s"
    by (rule detect_loop_other [OF s_post])
  ultimately show ?thesis using a2 by simp
qed

lemma detect_loop_stops:
  assumes nf: "faults st = []"
    and pre: "\<forall>s' \<in> set pre. lookup_row (daily_costs st) d s' \<noteq> None"
    and r: "lookup_row (daily_costs st) d s = None"
  shows "detect_loop st d (pre @ s # post) =
           (Some ErrNoRows, sent (SelectAmount d s) (snd (detect_loop st d pre)))"
proof -
  obtain st1 where l1: "detect_loop st d pre = (None, st1)" and f1: "faults st1 = []"
    using detect_loop_present [OF nf pre] by (cases "detect_loop st d pre") auto
  have dc1: "daily_costs st1 = daily_costs st"
    using detect_loop_daily_costs [of st d pre] l1 by simp
  from r dc1 have "lookup_row (daily_costs st1) d s = None" by simp
  from detect_service_missing [OF f1 this] l1 show ?thesis
    by (simp add: detect_loop_append)
qed

section \<open>The rounding functions\<close>

text \<open>\<open>ilog b x\<close> is the integer part of the logarithm; the \<^verbatim>\<open>float64\<close> nearest to \<open>x\<close> is
  within half a unit in the last place of \<open>x\<close>; dividing a number of cents by one at a
  scale of two or more digits leaves it as it is.\<close>

lemma ilog_bounds:
  assumes b: "1 < b" and x: "0 < x"
  shows "real b powi ilog b x \<le> x \<and> x < real b powi (ilog b x + 1)"
proof (cases "1 \<le> x")
  case True
  define n where "n = nat \<lfloor>x\<rfloor>"
  define k where "k = floorlog b n"
  from True have n: "0 < n" "real n \<le> x" "x < real n + 1"
    by (simp_all add: n_def)
  from floorlog_bounds [OF n(1) b] have fb: "b ^ (k - 1) \<le> n" "n < b ^ k"
    by (simp_all add: k_def)
  have "k \<noteq> 0" unfolding k_def floorlog_eq_zero_iff using n(1) b by simp
  then have k: "0 < k" by simp
  have i: "ilog b x = int k - 1" using True by (simp add: ilog_def n_def k_def)
  have p1: "real b powi (int k - 1) = real (b ^ (k - 1))"
    using k by (simp add: power_int_def nat_diff_distrib')
  have p2: "real b powi (int k - 1 + 1) = real (b ^ k)"
    by (simp add: power_int_def)
  from fb(1) n(2) have l: "real (b ^ (k - 1)) \<le> x"
    by (meson of_nat_le_iff order_trans)
  from fb(2) have "n + 1 \<le> b ^ k" by simp
  then have "real n + 1 \<le> real (b ^ k)"
    by (metis of_nat_le_iff of_nat_add of_nat_1)
  with n(3) have u: "x < real (b ^ k)" by linarith
  from l u show ?thesis unfolding i p1 p2 by simp
next
  case False
  with x have x1: "x < 1" by simp
  define m where "m = nat (\<lceil>1 / x\<rceil> - 1)"
  define k where "k = floorlog b m"
  from x x1 have "1 < 1 / x" by simp
  then have c: "2 \<le> \<lceil>1 / x\<rceil>" by linarith
  then have m: "0 < m" "real m < 1 / x" "1 / x \<le> real m + 1"
    by (simp_all add: m_def) linarith+
  from floorlog_bounds [OF m(1) b] have fb: "b ^ (k - 1) \<le> m" "m < b ^ k"
    by (simp_all add: k_def)
  have "k \<noteq> 0" unfolding k_def floorlog_eq_zero_iff using m(1) b by simp
  then have k: "0 < k" by simp
  have i: "ilog b x = - int k" using False by (simp add: ilog_def m_def k_def)
  have bp: "0 < real (b ^ k)" "0 < real (b ^ (k - 1))" using b by simp_all
  have p1: "real b powi (- int k) = 1 / real (b ^ k)"
    by (simp add: power_int_minus divide_inverse)
  have p2: "real b powi (- int k + 1) = 1 / real (b ^ (k - 1))"
  proof -
    have "- int k + 1 = - int (k - 1)" using k by simp
    then show ?thesis by (simp only: power_int_minus power_int_of_nat divide_inverse) simp
  qed
  from fb(2) have "m + 1 \<le> b ^ k" by simp
  then have "real m + 1 \<le> real (b ^ k)"
    by (metis of_nat_le_iff of_nat_add of_nat_1)
  with m(3) have "1 / x \<le> real (b ^ k)" by linarith
  with x bp(1) have l: "1 / real (b ^ k) \<le> x"
    by (simp add: field_simps)
  from fb(1) have "real (b ^ (k - 1)) \<le> real m" by (simp only: of_nat_le_iff)
  with m(2) have "real (b ^ (k - 1)) < 1 / x" by linarith
  with x bp(2) have u: "x < 1 / real (b ^ (k - 1))"
    by (simp add: field_simps)
  from l u show ?thesis unfolding i p1 p2 by simp
qed

lemma round_half_even_bound: "\<bar>of_int (round_half_even m) - m\<bar> \<le> 1 / 2"
  by (simp add: round_half_even_def Let_def)

lemma float64_error:
  assumes "x \<noteq> 0"
  shows "\<bar>float64 x - x\<bar> \<le> 2 powi (max (ilog 2 \<bar>x\<bar>) (- 1022) - 53)"
proof -
  define e where "e = max (ilog 2 \<bar>x\<bar>) (- 1022)"
  define u where "u = (2::real) powi (e - 52)"
  define n where "n = round_half_even (\<bar>x\<bar> / u)"
  have u: "0 < u" by (simp add: u_def)
  have f: "float64 x = sgn x * (of_int n * u)"
    using assms by (simp add: float64_def Let_def e_def u_def n_def)
  have "\<bar>float64 x - x\<bar> = \<bar>sgn x * (of_int n * u) - sgn x * \<bar>x\<bar>\<bar>"
    by (simp add: f sgn_mult_abs)
  also have "\<dots> = \<bar>sgn x\<bar> * \<bar>of_int n * u - \<bar>x\<bar>\<bar>"
    by (simp only: right_diff_distrib [symmetric] abs_mult)
  also have "\<dots> = \<bar>of_int n * u - \<bar>x\<bar>\<bar>"
    using assms by (simp add: abs_sgn_eq)
  also have "\<dots> = \<bar>of_int n - \<bar>x\<bar> / u\<bar> * u"
  proof -
    have "of_int n * u - \<bar>x\<bar> = (of_int n - \<bar>x\<bar> / u) * u"
      using u by (simp add: field_simps)
    then show ?thesis using u by (simp add: abs_mult)
  qed
  also have "\<dots> \<le> 1 / 2 * u"
    using round_half_even_bound [of "\<bar>x\<bar> / u"] u
    by (simp only: n_def mult_right_mono less_imp_le)
  also have "1 / 2 * u = 2 powi (e - 53)"
  proof -
    have "(2::real) powi (e - 52) = 2 powi (e - 53 + 1)" by simp
    also have "\<dots> = 2 powi (e - 53) * 2"
      by (subst power_int_add) simp_all
    finally show ?thesis by (simp add: u_def)
  qed
  finally show ?thesis by (simp only: e_def)
qed

lemma numeric_round_cents:
  assumes "2 \<le> k"
  shows "numeric_round (of_int c / 100) k = of_int c / 100"
proof -
  let ?x = "(of_int c / 100 :: real)"
  obtain n where k: "k = int n + 2"
    using assms by (metis add.commute nonneg_int_cases diff_ge_0_iff_ge diff_add_cancel)
  have p: "(10::real) powi k = 100 * 10 ^ n"
    unfolding k by (subst power_int_add) simp_all
  have "\<bar>?x\<bar> * 10 powi k = of_int (\<bar>c\<bar> * 10 ^ n)"
    by (simp add: p abs_divide)
  then have "\<lfloor>\<bar>?x\<bar> * 10 powi k + 1 / 2\<rfloor> = \<bar>c\<bar> * 10 ^ n"
    by (simp only: floor_add_int) linarith
  then have "of_int \<lfloor>\<bar>?x\<bar> * 10 powi k + 1 / 2\<rfloor> / 10 powi k = \<bar>?x\<bar>"
    by (simp add: p)
  then have "numeric_round ?x k = sgn ?x * \<bar>?x\<bar>"
    by (simp only: numeric_round_def)
  then show ?thesis by (simp add: sgn_mult_abs del: of_int_abs)
qed

lemma select_div_scale_ge: "2 \<le> select_div_scale a 2 b 0"
  by (simp add: select_div_scale_def Let_def)

lemma avg7_float8_single:
  assumes "window_rows rows s d = [r]" and "dc_amount r = of_int c / 100"
  shows "avg7_float8 rows s d = float64 (dc_amount r)"
proof -
  have a: "avg7_of rows s d = of_int c / 100"
    using assms by (simp add: avg7_of_def)
  have "2 \<le> avg7_scale rows s d"
    by (simp add: avg7_scale_def Let_def select_div_scale_ge)
  then have "numeric_round (of_int c / 100) (avg7_scale rows s d) = of_int c / 100"
    by (rule numeric_round_cents)
  then show ?thesis
    unfolding avg7_float8_def a assms(2) by (rule arg_cong)
qed

lemma avg7_float8_window:
  "window_rows rows s d = window_rows rows' s d \<Longrightarrow> avg7_float8 rows s d = avg7_float8 rows' s d"
  by (simp add: avg7_float8_def avg7_scale_def avg7_of_def)

lemma float64_examples:
  "float64 10 = 10"
  "float64 15 = 15"
  "15 < float64 15.01"
  "0 < float64 0.6"
  "float64 (1.5 * float64 0.6) < float64 0.9"
  by code_simp+

lemma avg7_float8_examples:
  "avg7_float8 (daily_costs (compute_state a)) ''compute'' 0 = 10"
  "avg7_float8 (daily_costs storage_spike_state) ''storage'' 0 = 10"
  "avg7_float8 (daily_costs storage_only_state) ''storage'' 0 = 10"
  "avg7_float8 (daily_costs threshold_state) ''network'' 0 = float64 0.6"
proof -
  let ?c = "\<lparr>dc_date = - 1, dc_service = ''compute'', dc_amount = 10, dc_currency = ''USD''\<rparr>"
  let ?s = "\<lparr>dc_date = - 1, dc_service = ''storage'', dc_amount = 10, dc_currency = ''USD''\<rparr>"
  let ?n = "\<lparr>dc_date = - 1, dc_service = ''network'', dc_amount = 0.6, dc_currency = ''USD''\<rparr>"
  have c: "dc_amount ?c = of_int 1000 / 100" "dc_amount ?s = of_int 1000 / 100"
    "dc_amount ?n = of_int 60 / 100"
    by simp_all
  have v: "float64 (dc_amount ?c) = 10" "float64 (dc_amount ?s) = 10"
    "float64 (dc_amount ?n) = float64 0.6"
    by (simp_all add: float64_examples)
  have w1: "window_rows (daily_costs (compute_state a)) ''compute'' 0 = [?c]"
    by (simp add: compute_state_def empty_state_def window_rows_def)
  have w2: "window_rows (daily_costs storage_spike_state) ''storage'' 0 = [?s]"
    by (simp add: storage_spike_state_def empty_state_def window_rows_def)
  have w3: "window_rows (daily_costs storage_only_state) ''storage'' 0 = [?s]"
    by (simp add: storage_only_state_def empty_state_def window_rows_def)
  have w4: "window_rows (daily_costs threshold_state) ''network'' 0 = [?n]"
    by (simp add: threshold_state_def empty_state_def window_rows_def)
  show "avg7_float8 (daily_costs (compute_state a)) ''compute'' 0 = 10"
    by (simp only: avg7_float8_single [OF w1 c(1)] v)
  show "avg7_float8 (daily_costs storage_spike_state) ''storage'' 0 = 10"
    by (simp only: avg7_float8_single [OF w2 c(2)] v)
  show "avg7_float8 (daily_costs storage_only_state) ''storage'' 0 = 10"
    by (simp only: avg7_float8_single [OF w3 c(2)] v)
  show "avg7_float8 (daily_costs threshold_state) ''network'' 0 = float64 0.6"
    by (simp only: avg7_float8_single [OF w4 c(3)] v)
qed

section \<open>The spike rule\<close>



text \<open>The boundary of the rule: with a trailing average of 10.00, an amount of 15.00
  raises no alert and an amount of 15.01 raises one.\<close>

lemma spike_boundary_example:
  "alerts_for (snd (detectAnomaliesForDate (compute_state 15) 0)) 0 ''compute'' = []"
  "map al_message (alerts_for (snd (detectAnomaliesForDate (compute_state 15.01) 0)) 0 ''compute'')
     = [CostSpike ''compute'' (float64 15.01) 10]"
proof -
  have s: "services = [] @ ''compute'' # [''storage'', ''db'', ''network'']"
    by (simp add: services_def)
  have f: "faults (compute_state a) = []" for a
    by (simp add: compute_state_def empty_state_def)
  have l: "lookup_row (daily_costs (compute_state a)) 0 ''compute''
             = Some \<lparr>dc_date = 0, dc_service = ''compute'', dc_amount = a, dc_currency = ''USD''\<rparr>" for a
    by (simp add: compute_state_def empty_state_def lookup_row_def)
  have old: "alerts_for (compute_state a) 0 ''compute'' = []" for a
    by (simp add: compute_state_def empty_state_def alerts_for_def)
  from detect_loop_rule [OF f s distinct_services _ l, of 15] old [of 15]
    avg7_float8_examples(1) [of 15] float64_examples(2)
  show "alerts_for (snd (detectAnomaliesForDate (compute_state 15) 0)) 0 ''compute'' = []"
    by (simp add: detectAnomaliesForDate_def)
  from detect_loop_rule [OF f s distinct_services _ l, of "15.01"] old [of "15.01"]
    avg7_float8_examples(1) [of "15.01"] float64_examples(2,3)
  show "map al_message (alerts_for (snd (detectAnomaliesForDate (compute_state 15.01) 0)) 0 ''compute'')
     = [CostSpike ''compute'' (float64 15.01) 10]"
    by (simp add: detectAnomaliesForDate_def)
qed


section \<open>A missing sample stops the evaluation\<close>

lemma detect_service_alerts:
  "\<exists>new. alerts (snd (detect_service st d s)) = alerts st @ new
         \<and> (\<forall>a \<in> set new. al_date a = d \<and> al_service a = s)"
  by (simp add: detect_service_def query_amount_def query_avg7_def exec_insert_alert_def
      Let_def split: option.splits)

lemma detect_loop_alerts:
  "\<exists>new. alerts (snd (detect_loop st d ss)) = alerts st @ new
         \<and> (\<forall>a \<in> set new. al_date a = d \<and> al_service a \<in> set ss)"
proof (induction ss arbitrary: st)
  case Nil
  show ?case by simp
next
  case (Cons s ss)
  obtain e st1 where step: "detect_service st d s = (e, st1)"
    by (cases "detect_service st d s")
  from detect_service_alerts [of st d s] step obtain n1 where
    n1: "alerts st1 = alerts st @ n1" "\<forall>a \<in> set n1. al_date a = d \<and> al_service a = s"
    by auto
  show ?case
  proof (cases e)
    case (Some a)
    with step n1 show ?thesis by auto
  next
    case None
    from Cons.IH [of st1] obtain n2 where
      n2: "alerts (snd (detect_loop st1 d ss)) = alerts st1 @ n2"
        "\<forall>a \<in> set n2. al_date a = d \<and> al_service a \<in> set ss"
      by auto
    have "alerts (snd (detect_loop st d (s # ss))) = alerts st @ (n1 @ n2)"
      using None step n1(1) n2(1) by simp
    moreover have "\<forall>a \<in> set (n1 @ n2). al_date a = d \<and> al_service a \<in> set (s # ss)"
      using n1(2) n2(2) by auto
    ultimately show ?thesis by blast
  qed
qed

lemma detect_service_alert:
  assumes "faults st = []" and "lookup_row (daily_costs st) d s = Some r"
    and "0 < avg7_float8 (daily_costs st) s d"
    and "float64 (1.5 * avg7_float8 (daily_costs st) s d) < float64 (dc_amount r)"
  shows "detect_service st d s =
           (None,
            log_Println (LogAlert (CostSpike s (float64 (dc_amount r)) (avg7_float8 (daily_costs st) s d)))
              (snd (exec_insert_alert (sent (SelectAvg7 s d) (sent (SelectAmount d s) st)) d s
                 (CostSpike s (float64 (dc_amount r)) (avg7_float8 (daily_costs st) s d)))))"
  using assms
  by (simp add: detect_service_def query_amount_def query_avg7_def exec_insert_alert_def
      Let_def avg7_float8_def)

text \<open>
  Claim C10. Let the store be available and let \<open>s\<close> be the first tracked service, in the
  order compute, storage, db, network, that has no row for the date. Then
  \<^verbatim>\<open>detectAnomaliesForDate\<close> returns the error of the empty result; the state it leaves
  is the state after the evaluation of the services before \<open>s\<close> with the one failed lookup
  added to the trace, so no statement about a later service is sent; and the table of
  alerts is as the evaluation of the services before \<open>s\<close> left it: the alerts that were
  there before the call, followed by the alerts appended for those services during the
  call. Nothing is taken back.
\<close>

theorem missing_sample_stops_detection:
  assumes "faults st = []"
    and "services = pre @ s # post"
    and "\<forall>s' \<in> set pre. lookup_row (daily_costs st) (Format_date day) s' \<noteq> None"
    and "lookup_row (daily_costs st) (Format_date day) s = None"
  shows "detectAnomaliesForDate st day =
           (Some ErrNoRows,
            sent (SelectAmount (Format_date day) s) (snd (detect_loop st (Format_date day) pre)))
       \<and> (\<forall>s' \<in> set post. \<forall>q \<in> set (new_trace st (snd (detectAnomaliesForDate st day))).
           stmt_service q \<noteq> Some s')
       \<and> alerts (snd (detectAnomaliesForDate st day))
           = alerts (snd (detect_loop st (Format_date day) pre))
       \<and> (\<exists>new. alerts (snd (detectAnomaliesForDate st day)) = alerts st @ new
             \<and> (\<forall>a \<in> set new. al_date a = Format_date day \<and> al_service a \<in> set pre))"
proof -
  let ?d = "Format_date day"
  let ?st1 = "snd (detect_loop st ?d pre)"
  have eq: "detectAnomaliesForDate st day = (Some ErrNoRows, sent (SelectAmount ?d s) ?st1)"
    unfolding detectAnomaliesForDate_def assms(2)
    by (rule detect_loop_stops [OF assms(1) assms(3) assms(4)])
  have dist: "distinct (pre @ s # post)"
    using distinct_services assms(2) by simp
  from detect_loop_trace [of st ?d pre] obtain new where
    new: "trace ?st1 = trace st @ new"
      "\<forall>q \<in> set new. \<exists>x \<in> set pre. stmt_service q = Some x"
    by blast
  have nt: "new_trace st (snd (detectAnomaliesForDate st day)) = new @ [SelectAmount ?d s]"
    using eq new(1) by (simp add: new_trace_def)
  have later: "\<forall>s' \<in> set post. \<forall>q \<in> set (new_trace st (snd (detectAnomaliesForDate st day))).
           stmt_service q \<noteq> Some s'"
  proof (intro ballI)
    fix s' q
    assume s': "s' \<in> set post"
      and q: "q \<in> set (new_trace st (snd (detectAnomaliesForDate st day)))"
    from s' dist have ne: "s' \<noteq> s" and notpre: "s' \<notin> set pre" by auto
    from q nt have "q \<in> set new \<or> q = SelectAmount ?d s" by auto
    then show "stmt_service q \<noteq> Some s'"
    proof
      assume "q \<in> set new"
      with new(2) obtain x where "x \<in> set pre" "stmt_service q = Some x" by blast
      with notpre show ?thesis by auto
    next
      assume "q = SelectAmount ?d s"
      with ne show ?thesis by simp
    qed
  qed
  have kept: "alerts (snd (detectAnomaliesForDate st day)) = alerts ?st1"
    using eq by simp
  have earlier: "\<exists>new. alerts (snd (detectAnomaliesForDate st day)) = alerts st @ new
             \<and> (\<forall>a \<in> set new. al_date a = ?d \<and> al_service a \<in> set pre)"
    unfolding kept by (rule detect_loop_alerts)
  show ?thesis
    by (rule conjI [OF eq conjI [OF later conjI [OF kept earlier]]])
qed

text \<open>''compute'' spikes on day 0 and ''storage'' has no row: the call fails at
  ''storage'' and the alert for ''compute'' stays.\<close>

theorem missing_sample_stops_detection_witness:
  "faults (compute_state 15.01) = []
   \<and> services = [''compute''] @ ''storage'' # [''db'', ''network'']
   \<and> lookup_row (daily_costs (compute_state 15.01)) (Format_date 0) ''compute'' \<noteq> None
   \<and> lookup_row (daily_costs (compute_state 15.01)) (Format_date 0) ''storage'' = None
   \<and> fst (detectAnomaliesForDate (compute_state 15.01) 0) = Some ErrNoRows
   \<and> new_trace (compute_state 15.01) (snd (detectAnomaliesForDate (compute_state 15.01) 0))
       = [SelectAmount 0 ''compute'', SelectAvg7 ''compute'' 0,
          InsertAlert 0 ''compute'' (CostSpike ''compute'' (float64 15.01) 10),
          SelectAmount 0 ''storage'']
   \<and> map al_message (alerts (snd (detectAnomaliesForDate (compute_state 15.01) 0)))
       = [CostSpike ''compute'' (float64 15.01) 10]"
proof -
  let ?r = "\<lparr>dc_date = 0, dc_service = ''compute'', dc_amount = 15.01, dc_currency = ''USD''\<rparr>"
  have h1: "faults (compute_state 15.01) = []"
    by (simp add: compute_state_def empty_state_def)
  have h2: "services = [''compute''] @ ''storage'' # [''db'', ''network'']"
    by (simp add: services_def)
  have h3: "\<forall>s' \<in> set [''compute''].
              lookup_row (daily_costs (compute_state 15.01)) (Format_date 0) s' \<noteq> None"
    by (simp add: compute_state_def empty_state_def lookup_row_def)
  have h4: "lookup_row (daily_costs (compute_state 15.01)) (Format_date 0) ''storage'' = None"
    by (simp add: compute_state_def empty_state_def lookup_row_def)
  have l: "lookup_row (daily_costs (compute_state 15.01)) 0 ''compute'' = Some ?r"
    by (simp add: compute_state_def empty_state_def lookup_row_def)
  have avg: "0 < avg7_float8 (daily_costs (compute_state 15.01)) ''compute'' 0"
    by (simp add: avg7_float8_examples)
  have cmp: "float64 (1.5 * avg7_float8 (daily_costs (compute_state 15.01)) ''compute'' 0)
               < float64 (dc_amount ?r)"
    using float64_examples(2,3) by (simp add: avg7_float8_examples)
  have run: "snd (detect_loop (compute_state 15.01) (Format_date 0) [''compute'']) =
      log_Println (LogAlert (CostSpike ''compute'' (float64 15.01) 10))
         (snd (exec_insert_alert
            (sent (SelectAvg7 ''compute'' 0) (sent (SelectAmount 0 ''compute'') (compute_state 15.01)))
            0 ''compute'' (CostSpike ''compute'' (float64 15.01) 10)))"
    using detect_service_alert [OF h1 l avg cmp] by (simp add: avg7_float8_examples)
  from missing_sample_stops_detection [OF h1 h2 h3 h4] h1 h2 h3 h4 run show ?thesis
    by (simp add: new_trace_def exec_insert_alert_def Let_def compute_state_def empty_state_def)
qed

section \<open>The trailing window\<close>

lemma lookup_row_Nil [simp]: "lookup_row [] d s = None"
  by (simp add: lookup_row_def)

lemma lookup_row_Cons:
  "lookup_row (r # rs) d s =
     (if dc_date r = d \<and> dc_service r = s then Some r else lookup_row rs d s)"
  by (simp add: lookup_row_def)


lemma lookup_row_Some:
  "lookup_row rows d s = Some r \<Longrightarrow> r \<in> set rows \<and> dc_date r = d \<and> dc_service r = s"
  by (induction rows) (auto simp: lookup_row_Cons split: if_splits)















section \<open>Upsert\<close>

lemma keys_upsert_row:
  "map (\<lambda>r. (dc_date r, dc_service r)) (upsert_row rows d s a c) =
     (if (d, s) \<in> set (map (\<lambda>r. (dc_date r, dc_service r)) rows)
      then map (\<lambda>r. (dc_date r, dc_service r)) rows
      else map (\<lambda>r. (dc_date r, dc_service r)) rows @ [(d, s)])"
  by (induction rows) auto

lemma primary_key_upsert_row:
  "primary_key_ok rows \<Longrightarrow> primary_key_ok (upsert_row rows d s a c)"
  by (simp add: primary_key_ok_def keys_upsert_row)

lemma lookup_upsert_row_same:
  "lookup_row (upsert_row rows d s a c) d s =
     Some \<lparr>dc_date = d, dc_service = s, dc_amount = a, dc_currency = c\<rparr>"
  by (induction rows) (auto simp: lookup_row_Cons)

lemma lookup_upsert_row_other:
  "(d', s') \<noteq> (d, s) \<Longrightarrow> lookup_row (upsert_row rows d' s' a c) d s = lookup_row rows d s"
  by (induction rows) (auto simp: lookup_row_Cons)

lemma one_row_per_key:
  assumes "primary_key_ok rows" and "lookup_row rows d s = Some r"
  shows "filter (\<lambda>r. dc_date r = d \<and> dc_service r = s) rows = [r]"
  using assms
proof (induction rows)
  case Nil
  then show ?case by simp
next
  case (Cons x xs)
  from Cons.prems(1) have pk: "primary_key_ok xs"
    and fresh: "(dc_date x, dc_service x) \<notin> set (map (\<lambda>r. (dc_date r, dc_service r)) xs)"
    by (simp_all add: primary_key_ok_def)
  show ?case
  proof (cases "dc_date x = d \<and> dc_service x = s")
    case True
    with fresh have "\<forall>y \<in> set xs. \<not> (dc_date y = d \<and> dc_service y = s)"
      by (auto simp: image_iff)
    then have "filter (\<lambda>r. dc_date r = d \<and> dc_service r = s) xs = []" by simp
    with True Cons.prems(2) show ?thesis by (simp add: lookup_row_Cons)
  next
    case False
    with Cons.prems(2) have "lookup_row xs d s = Some r" by (simp add: lookup_row_Cons)
    from Cons.IH [OF pk this] False show ?thesis by auto
  qed
qed

lemma exec_upsert_ok:
  assumes "faults st = []" and "numeric_12_2 a = Some c"
  shows "exec_upsert st d s a =
           (None, (sent (UpsertCost d s a) st)
                    \<lparr>daily_costs := upsert_row (daily_costs st) d s c ''USD''\<rparr>)"
  using assms by (simp add: exec_upsert_def Let_def)

lemma exec_upsert_other_key:
  "(d', s') \<noteq> (d, s) \<Longrightarrow>
   lookup_row (daily_costs (snd (exec_upsert st d' s' a))) d s = lookup_row (daily_costs st) d s"
  by (simp add: exec_upsert_def Let_def lookup_upsert_row_other split: option.splits)

lemma exec_upsert_primary_key:
  "primary_key_ok (daily_costs st) \<Longrightarrow> primary_key_ok (daily_costs (snd (exec_upsert st d s a)))"
  by (simp add: exec_upsert_def Let_def primary_key_upsert_row split: option.splits)

lemma upsert_all_append:
  "upsert_all st (xs @ ys) =
     (fst (upsert_all st xs) @ fst (upsert_all (snd (upsert_all st xs)) ys),
      snd (upsert_all (snd (upsert_all st xs)) ys))"
  by (induction xs arbitrary: st) (auto simp: Let_def)

lemma upsert_all_other_keys:
  "\<forall>w \<in> set ws. (fst w, fst (snd w)) \<noteq> (d, s) \<Longrightarrow>
   lookup_row (daily_costs (snd (upsert_all st ws))) d s = lookup_row (daily_costs st) d s"
proof (induction ws arbitrary: st)
  case Nil
  show ?case by simp
next
  case (Cons w ws)
  obtain d' s' a' where w: "w = (d', s', a')" by (cases w)
  with Cons.prems have ne: "(d', s') \<noteq> (d, s)" by simp
  from Cons.prems have rest: "\<forall>w \<in> set ws. (fst w, fst (snd w)) \<noteq> (d, s)" by simp
  from Cons.IH [OF rest, of "snd (exec_upsert st d' s' a')"] exec_upsert_other_key [OF ne, of st a']
  show ?case by (simp add: w Let_def)
qed

lemma upsert_all_ok:
  assumes "faults st = []" and "\<forall>w \<in> set ws. numeric_12_2 (snd (snd w)) \<noteq> None"
  shows "set (fst (upsert_all st ws)) \<subseteq> {None} \<and> faults (snd (upsert_all st ws)) = []"
  using assms
proof (induction ws arbitrary: st)
  case Nil
  then show ?case by simp
next
  case (Cons w ws)
  obtain d s a where w: "w = (d, s, a)" by (cases w)
  with Cons.prems(2) obtain c where c: "numeric_12_2 a = Some c" by auto
  note ok = exec_upsert_ok [OF Cons.prems(1) c, of d s]
  have f1: "faults (snd (exec_upsert st d s a)) = []"
    using Cons.prems(1) by (simp add: ok)
  from Cons.prems(2) have rest: "\<forall>w \<in> set ws. numeric_12_2 (snd (snd w)) \<noteq> None" by simp
  from Cons.IH [OF f1 rest] ok show ?case by (simp add: w Let_def)
qed

lemma upsert_all_primary_key:
  "primary_key_ok (daily_costs st) \<Longrightarrow> primary_key_ok (daily_costs (snd (upsert_all st ws)))"
proof (induction ws arbitrary: st)
  case Nil
  then show ?case by simp
next
  case (Cons w ws)
  obtain d s a where w: "w = (d, s, a)" by (cases w)
  from Cons.IH [OF exec_upsert_primary_key [OF Cons.prems, of d s a]] show ?case
    by (simp add: w Let_def)
qed

text \<open>
  Claim C4, as the program has it. Run any sequence of upserts on a table that respects
  its primary key, with the store available and every amount within the range of the
  column. No call fails, and for the last write \<open>(d, s, a)\<close> to a key the table ends
  with exactly one row of that key: its currency is the one written, ''USD'', and its
  amount is \<open>a\<close> rounded to two decimal places, as the column type
  \<^verbatim>\<open>numeric(12,2)\<close> stores it.
\<close>

theorem upsert_last_write_wins:
  assumes "faults st = []" and "primary_key_ok (daily_costs st)"
    and "\<forall>w \<in> set ws. numeric_12_2 (snd (snd w)) \<noteq> None"
    and "ws = before @ (d, s, a) # after"
    and "\<forall>w \<in> set after. (fst w, fst (snd w)) \<noteq> (d, s)"
    and "numeric_12_2 a = Some c"
  shows "set (fst (upsert_all st ws)) \<subseteq> {None}
       \<and> rows_of_key (snd (upsert_all st ws)) d s =
           [\<lparr>dc_date = d, dc_service = s, dc_amount = c, dc_currency = ''USD''\<rparr>]"
proof -
  let ?r = "\<lparr>dc_date = d, dc_service = s, dc_amount = c, dc_currency = ''USD''\<rparr>"
  let ?st1 = "snd (upsert_all st before)"
  let ?st2 = "snd (exec_upsert ?st1 d s a)"
  from assms(3,4) have okb: "\<forall>w \<in> set before. numeric_12_2 (snd (snd w)) \<noteq> None" by simp
  from upsert_all_ok [OF assms(1) okb] have f1: "faults ?st1 = []" by simp
  have l2: "lookup_row (daily_costs ?st2) d s = Some ?r"
    by (simp add: exec_upsert_ok [OF f1 assms(6)] lookup_upsert_row_same)
  have fin: "snd (upsert_all st ws) = snd (upsert_all ?st2 after)"
    by (simp add: assms(4) upsert_all_append Let_def)
  have "lookup_row (daily_costs (snd (upsert_all st ws))) d s = Some ?r"
    using upsert_all_other_keys [OF assms(5), of ?st2] l2 fin by simp
  from one_row_per_key [OF upsert_all_primary_key [OF assms(2), of ws] this]
  have "rows_of_key (snd (upsert_all st ws)) d s = [?r]"
    by (simp add: rows_of_key_def)
  with upsert_all_ok [OF assms(1) assms(3)] show ?thesis by simp
qed


text \<open>The amount of the row is the rounded amount, not the amount of the last write:
  after the writes of 5 and then 1.234 to one key the only row holds 1.23.\<close>

lemma numeric_ex: "numeric_12_2 5 = Some 5" "numeric_12_2 1.234 = Some 1.23"
  by (simp_all add: numeric_12_2_def)

theorem upsert_last_write_wins_counterexample:
  "fst (upsert_all empty_state [(0, ''compute'', 5), (0, ''compute'', 1.234)]) = [None, None]
   \<and> map dc_amount (rows_of_key
        (snd (upsert_all empty_state [(0, ''compute'', 5), (0, ''compute'', 1.234)])) 0 ''compute'')
       = [1.23]
   \<and> (1.23 :: real) \<noteq> 1.234"
  by (simp add: empty_state_def exec_upsert_def stmt_fails_def sent_def numeric_12_2_def
      rows_of_key_def Let_def)

theorem upsert_last_write_wins_witness:
  "faults empty_state = [] \<and> primary_key_ok (daily_costs empty_state)
   \<and> numeric_12_2 5 = Some 5 \<and> numeric_12_2 1.234 = Some 1.23
   \<and> [(0, ''compute'', 5), (0, ''compute'', 1.234 :: real)]
       = [(0, ''compute'', 5)] @ (0, ''compute'', 1.234) # []
   \<and> set (fst (upsert_all empty_state [(0, ''compute'', 5), (0, ''compute'', 1.234)])) \<subseteq> {None}
   \<and> rows_of_key (snd (upsert_all empty_state [(0, ''compute'', 5), (0, ''compute'', 1.234)]))
        0 ''compute''
       = [\<lparr>dc_date = 0, dc_service = ''compute'', dc_amount = 1.23, dc_currency = ''USD''\<rparr>]"
proof -
  have h1: "faults empty_state = []" by (simp add: empty_state_def)
  have h2: "primary_key_ok (daily_costs empty_state)"
    by (simp add: empty_state_def primary_key_ok_def)
  have h3: "\<forall>w \<in> set [(0, ''compute'', 5), (0, ''compute'', 1.234 :: real)].
              numeric_12_2 (snd (snd w)) \<noteq> None"
    by (simp add: numeric_12_2_def del: not_None_eq)
  have h4: "[(0, ''compute'', 5), (0, ''compute'', 1.234 :: real)]
       = [(0, ''compute'', 5)] @ (0, ''compute'', 1.234) # []" by simp
  have h5: "\<forall>w \<in> set ([] :: (date \<times> string \<times> real) list). (fst w, fst (snd w)) \<noteq> (0, ''compute'')"
    by simp
  from upsert_last_write_wins [OF h1 h2 h3 h4 h5 numeric_ex(2)] h1 h2 numeric_ex
  show ?thesis by simp
qed

section \<open>The sampler\<close>

lemma baseline_le: "baseline s \<le> 3"
  by (simp add: baseline_def)

lemma sample_amount_ge: "0.05 \<le> sample_amount u s spikeService"
  by (simp add: sample_amount_def Let_def)

lemma sample_amount_less:
  assumes "0 \<le> u" and "u < 1"
  shows "sample_amount u s spikeService < 10"
proof -
  have "baseline s + (u * 0.6 - 0.3) < 10 / 3"
    using baseline_le [of s] assms by simp
  then show ?thesis
    by (auto simp: sample_amount_def Let_def)
qed

lemma numeric_12_2_ge:
  assumes "0.05 \<le> a" and "numeric_12_2 a = Some c"
  shows "0.05 \<le> c"
proof -
  from assms(1) have "5 + 1 / 2 \<le> a * 100 + 1 / 2" by simp
  then have "\<lfloor>5 + 1 / 2 :: real\<rfloor> \<le> \<lfloor>a * 100 + 1 / 2\<rfloor>" by (rule floor_mono)
  then have "5 \<le> \<lfloor>a * 100 + 1 / 2\<rfloor>" by simp
  then have five: "5 \<le> real_of_int \<lfloor>a * 100 + 1 / 2\<rfloor>" by linarith
  have gen: "5 \<le> r \<Longrightarrow> 0.05 \<le> r / 100" for r :: real by simp
  from assms have ceq: "c = real_of_int \<lfloor>a * 100 + 1 / 2\<rfloor> / 100"
    by (simp add: numeric_12_2_def Let_def split: if_splits)
  from gen [OF five] show ?thesis unfolding ceq .
qed

lemma numeric_12_2_fits:
  assumes "0 \<le> a" and "a < 10"
  shows "numeric_12_2 a \<noteq> None"
proof -
  from assms have "a * 100 + 1 / 2 < 1001" by simp
  then have "\<lfloor>a * 100 + 1 / 2\<rfloor> < 1001" by linarith
  moreover from assms have "0 \<le> \<lfloor>a * 100 + 1 / 2\<rfloor>" by simp
  ultimately have "\<bar>\<lfloor>a * 100 + 1 / 2\<rfloor>\<bar> < 10 ^ 12" by simp
  with assms(1) show ?thesis
    by (simp add: numeric_12_2_def Let_def del: not_None_eq)
qed

lemma upsert_row_set:
  "set (upsert_row rows d s a c) \<subseteq>
     set rows \<union> {r. dc_amount r = a}"
  by (induction rows) auto

lemma exec_upsert_positive:
  assumes "\<forall>r \<in> set (daily_costs st). 0 < dc_amount r" and "0.05 \<le> a"
  shows "\<forall>r \<in> set (daily_costs (snd (exec_upsert st d s a))). 0 < dc_amount r"
proof (cases "stmt_fails st \<or> numeric_12_2 a = None")
  case True
  with assms(1) show ?thesis by (auto simp: exec_upsert_def Let_def)
next
  case False
  then obtain c where c: "numeric_12_2 a = Some c" and nf: "\<not> stmt_fails st" by auto
  from numeric_12_2_ge [OF assms(2) c] have "0 < c" by simp
  with upsert_row_set [of "daily_costs st" d s c "''USD''"] assms(1) c nf
  show ?thesis by (auto simp: exec_upsert_def Let_def)
qed

lemma exec_upsert_trace:
  "trace (snd (exec_upsert st d s a)) = trace st @ [UpsertCost d s a]"
  by (simp add: exec_upsert_def Let_def split: option.splits)

lemma exec_upsert_alerts [simp]:
  "alerts (snd (exec_upsert st d s a)) = alerts st"
  "logged (snd (exec_upsert st d s a)) = logged st"
  by (simp_all add: exec_upsert_def Let_def split: option.splits)

lemma insert_loop_positive:
  assumes "\<forall>r \<in> set (daily_costs st). 0 < dc_amount r"
  shows "\<forall>r \<in> set (daily_costs (fst (snd (insert_loop R st rng d spike ss)))). 0 < dc_amount r"
  using assms
proof (induction ss arbitrary: st rng)
  case Nil
  then show ?case by simp
next
  case (Cons s ss)
  let ?a = "sample_amount (fst (Float64 R rng)) s spike"
  obtain e st1 where step: "exec_upsert st d s ?a = (e, st1)"
    by (cases "exec_upsert st d s ?a")
  from exec_upsert_positive [OF Cons.prems sample_amount_ge [of "fst (Float64 R rng)" s spike], of d s] step
  have p1: "\<forall>r \<in> set (daily_costs st1). 0 < dc_amount r" by simp
  show ?case
  proof (cases e)
    case None
    with Cons.IH [OF p1] step show ?thesis by (simp add: Let_def)
  next
    case (Some x)
    with p1 step show ?thesis by (simp add: Let_def)
  qed
qed

lemma insert_loop_trace:
  "\<exists>new. trace (fst (snd (insert_loop R st rng d spike ss))) = trace st @ new \<and>
         (\<forall>q \<in> set new. \<exists>s a. q = UpsertCost d s a \<and> 0.05 \<le> a)"
proof (induction ss arbitrary: st rng)
  case Nil
  show ?case by simp
next
  case (Cons s ss)
  let ?a = "sample_amount (fst (Float64 R rng)) s spike"
  obtain e st1 where step: "exec_upsert st d s ?a = (e, st1)"
    by (cases "exec_upsert st d s ?a")
  from exec_upsert_trace [of st d s ?a] step
  have t1: "trace st1 = trace st @ [UpsertCost d s ?a]" by simp
  show ?case
  proof (cases e)
    case (Some x)
    with step t1 sample_amount_ge [of "fst (Float64 R rng)" s spike] show ?thesis
      by (simp add: Let_def)
  next
    case None
    from Cons.IH [of st1 "snd (Float64 R rng)"] obtain n2 where
      n2: "trace (fst (snd (insert_loop R st1 (snd (Float64 R rng)) d spike ss))) = trace st1 @ n2"
        "\<forall>q \<in> set n2. \<exists>s a. q = UpsertCost d s a \<and> 0.05 \<le> a"
      by blast
    have "trace (fst (snd (insert_loop R st rng d spike (s # ss))))
            = trace st @ (UpsertCost d s ?a # n2)"
      using None step t1 n2(1) by (simp add: Let_def)
    moreover have "\<forall>q \<in> set (UpsertCost d s ?a # n2). \<exists>s a. q = UpsertCost d s a \<and> 0.05 \<le> a"
      using n2(2) sample_amount_ge [of "fst (Float64 R rng)" s spike] by simp
    ultimately show ?thesis by blast
  qed
qed

lemma insert_loop_alerts [simp]:
  "alerts (fst (snd (insert_loop R st rng d spike ss))) = alerts st"
proof (induction ss arbitrary: st rng)
  case Nil
  show ?case by simp
next
  case (Cons s ss)
  let ?a = "sample_amount (fst (Float64 R rng)) s spike"
  obtain e st1 where step: "exec_upsert st d s ?a = (e, st1)"
    by (cases "exec_upsert st d s ?a")
  from exec_upsert_alerts(1) [of st d s ?a] step have "alerts st1 = alerts st" by simp
  with Cons.IH [of st1] step show ?case
    by (cases e) (simp_all add: Let_def)
qed

lemma insertSimulatedDay_cases:
  "insertSimulatedDay R st rng day =
     (if fst (Intn R rng 14) = 0 \<and> \<not> fst (Intn R (snd (Intn R rng 14)) (length services)) < length services
      then (Some PanicIndexOutOfRange, st, snd (Intn R (snd (Intn R rng 14)) (length services)))
      else insert_loop R st (day_rng R rng) (Format_date day) (day_spike R rng) services)"
  by (simp add: insertSimulatedDay_def day_rng_def day_spike_def Let_def)

lemma insertSimulatedDay_positive:
  assumes "\<forall>r \<in> set (daily_costs st). 0 < dc_amount r"
  shows "\<forall>r \<in> set (daily_costs (fst (snd (insertSimulatedDay R st rng day)))). 0 < dc_amount r"
  using assms insert_loop_positive [OF assms, of R "day_rng R rng" "Format_date day" "day_spike R rng" services]
  by (simp add: insertSimulatedDay_cases)

lemma insertSimulatedDay_trace:
  "\<exists>new. trace (fst (snd (insertSimulatedDay R st rng day))) = trace st @ new \<and>
         (\<forall>q \<in> set new. \<exists>s a. q = UpsertCost (Format_date day) s a \<and> 0.05 \<le> a)"
  using insert_loop_trace [of R st "day_rng R rng" "Format_date day" "day_spike R rng" services]
  by (simp add: insertSimulatedDay_cases)

lemma insertSimulatedDay_alerts [simp]:
  "alerts (fst (snd (insertSimulatedDay R st rng day))) = alerts st"
  by (simp add: insertSimulatedDay_cases)

lemma generateAndCheckToday_positive:
  assumes "\<forall>r \<in> set (daily_costs st). 0 < dc_amount r"
  shows "\<forall>r \<in> set (daily_costs (snd (generateAndCheckToday R st t1 t2))). 0 < dc_amount r"
proof -
  obtain e st1 rng1 where step: "insertSimulatedDay R st (NewSource R t1) t2 = (e, st1, rng1)"
    by (cases "insertSimulatedDay R st (NewSource R t1) t2")
  from insertSimulatedDay_positive [OF assms, of R "NewSource R t1" t2] step
  have "\<forall>r \<in> set (daily_costs st1). 0 < dc_amount r" by simp
  with step show ?thesis
    by (cases e) (simp_all add: generateAndCheckToday_def detectAnomaliesForDate_def)
qed

lemma backfill_loop_positive:
  assumes "\<forall>r \<in> set (daily_costs st). 0 < dc_amount r"
  shows "\<forall>r \<in> set (daily_costs (fst (snd (backfill_loop R st rng start is)))). 0 < dc_amount r"
  using assms
proof (induction "is" arbitrary: st rng)
  case Nil
  then show ?case by simp
next
  case (Cons i "is")
  obtain e st1 rng1 where step: "insertSimulatedDay R st rng (AddDate start (int i)) = (e, st1, rng1)"
    by (cases "insertSimulatedDay R st rng (AddDate start (int i))")
  from insertSimulatedDay_positive [OF Cons.prems, of R rng "AddDate start (int i)"] step
  have p1: "\<forall>r \<in> set (daily_costs st1). 0 < dc_amount r" by simp
  show ?case
  proof (cases e)
    case None
    with Cons.IH [OF p1] step show ?thesis by (simp add: Let_def)
  next
    case (Some x)
    with p1 step show ?thesis by (simp add: Let_def)
  qed
qed

lemma backfill_positive:
  assumes "\<forall>r \<in> set (daily_costs st). 0 < dc_amount r"
  shows "\<forall>r \<in> set (daily_costs (snd (backfill R st now days t1 t2))). 0 < dc_amount r"
proof -
  let ?l = "backfill_loop R st (NewSource R 42) (AddDate now (- days + 1)) [0..<nat days]"
  obtain e st1 rng1 where step: "?l = (e, st1, rng1)" by (cases ?l)
  from backfill_loop_positive [OF assms, of R "NewSource R 42" "AddDate now (- days + 1)" "[0..<nat days]"] step
  have p1: "\<forall>r \<in> set (daily_costs st1). 0 < dc_amount r" by simp
  show ?thesis
  proof (cases e)
    case None
    with generateAndCheckToday_positive [OF p1] step show ?thesis
      by (simp add: backfill_def Let_def)
  next
    case (Some x)
    with p1 step show ?thesis by (simp add: backfill_def Let_def)
  qed
qed

text \<open>
  Claim C8. Every amount the sampler writes is strictly positive. The amount of a
  service is its baseline plus the noise \<open>u * 0.6 - 0.3\<close>, raised to 0.05 when it is
  below, and multiplied by 3 for the service that spikes (\<open>sample_amount\<close>); every upsert
  that \<^verbatim>\<open>insertSimulatedDay\<close> sends carries an amount of at least 0.05, which the column
  stores as at least 0.05; so a table whose amounts are all positive still is after
  \<^verbatim>\<open>insertSimulatedDay\<close>, after \<^verbatim>\<open>generateAndCheckToday\<close> and after \<^verbatim>\<open>backfill\<close>, whatever
  the generator draws and whether or not the store fails.
\<close>

theorem sampled_amounts_positive:
  assumes "\<forall>r \<in> set (daily_costs st). 0 < dc_amount r"
  shows "(\<forall>r \<in> set (daily_costs (fst (snd (insertSimulatedDay R st rng day)))). 0 < dc_amount r)
       \<and> (\<forall>q \<in> set (new_trace st (fst (snd (insertSimulatedDay R st rng day)))).
            \<exists>s a. q = UpsertCost (Format_date day) s a \<and> 0.05 \<le> a)
       \<and> (\<forall>r \<in> set (daily_costs (snd (generateAndCheckToday R st t1 t2))). 0 < dc_amount r)
       \<and> (\<forall>r \<in> set (daily_costs (snd (backfill R st now days t1 t2))). 0 < dc_amount r)"
proof -
  from insertSimulatedDay_trace [of R st rng day] obtain new where
    new: "trace (fst (snd (insertSimulatedDay R st rng day))) = trace st @ new"
      "\<forall>q \<in> set new. \<exists>s a. q = UpsertCost (Format_date day) s a \<and> 0.05 \<le> a"
    by blast
  from new(1) have "new_trace st (fst (snd (insertSimulatedDay R st rng day))) = new"
    by (simp add: new_trace_def)
  with new(2) have b: "\<forall>q \<in> set (new_trace st (fst (snd (insertSimulatedDay R st rng day)))).
            \<exists>s a. q = UpsertCost (Format_date day) s a \<and> 0.05 \<le> a"
    by simp
  show ?thesis
    by (rule conjI [OF insertSimulatedDay_positive [OF assms]
          conjI [OF b conjI [OF generateAndCheckToday_positive [OF assms]
            backfill_positive [OF assms]]]])
qed


theorem sampled_amounts_positive_witness:
  "list_all (\<lambda>r. 0 < dc_amount r) (daily_costs (compute_state 15.01))
   \<and> list_all (\<lambda>r. 0 < dc_amount r)
        (daily_costs (fst (snd (insertSimulatedDay counter_rand (compute_state 15.01) 0 0))))"
proof -
  have h: "\<forall>r \<in> set (daily_costs (compute_state 15.01)). 0 < dc_amount r"
    by (simp add: compute_state_def empty_state_def)
  from h sampled_amounts_positive [OF h, of counter_rand 0 0] show ?thesis
    by (simp add: list_all_iff)
qed

section \<open>A day on an available store\<close>

lemma rand_ok_counter_rand: "rand_ok counter_rand"
  by (simp add: rand_ok_def counter_rand_def)

lemma rand_ok_storable:
  assumes "rand_ok R"
  shows "numeric_12_2 (sample_amount (fst (Float64 R rng)) s spike) \<noteq> None"
proof -
  from assms have u: "0 \<le> fst (Float64 R rng)" "fst (Float64 R rng) < 1"
    by (simp_all add: rand_ok_def)
  have "0 \<le> sample_amount (fst (Float64 R rng)) s spike"
    using sample_amount_ge [of "fst (Float64 R rng)" s spike] by simp
  from numeric_12_2_fits [OF this sample_amount_less [OF u]] show ?thesis .
qed

lemma upsert_row_presence:
  "lookup_row rows d' s' \<noteq> None \<Longrightarrow> lookup_row (upsert_row rows d s a c) d' s' \<noteq> None"
  by (induction rows) (auto simp: lookup_row_Cons)

lemma exec_upsert_presence:
  "lookup_row (daily_costs st) d' s' \<noteq> None \<Longrightarrow>
   lookup_row (daily_costs (snd (exec_upsert st d s a))) d' s' \<noteq> None"
  by (simp add: exec_upsert_def Let_def upsert_row_presence del: not_None_eq split: option.splits)

lemma insert_loop_other_key:
  "d' \<noteq> d \<or> s' \<notin> set ss \<Longrightarrow>
   lookup_row (daily_costs (fst (snd (insert_loop R st rng d spike ss)))) d' s'
     = lookup_row (daily_costs st) d' s'"
proof (induction ss arbitrary: st rng)
  case Nil
  show ?case by simp
next
  case (Cons s ss)
  let ?a = "sample_amount (fst (Float64 R rng)) s spike"
  obtain e st1 where step: "exec_upsert st d s ?a = (e, st1)"
    by (cases "exec_upsert st d s ?a")
  from Cons.prems have ne: "(d, s) \<noteq> (d', s')" and rest: "d' \<noteq> d \<or> s' \<notin> set ss" by auto
  from exec_upsert_other_key [OF ne, of st ?a] step
  have l1: "lookup_row (daily_costs st1) d' s' = lookup_row (daily_costs st) d' s'" by simp
  show ?case
  proof (cases e)
    case None
    with Cons.IH [OF rest, of st1] l1 step show ?thesis by (simp add: Let_def)
  next
    case (Some x)
    with l1 step show ?thesis by (simp add: Let_def)
  qed
qed

lemma insert_loop_ok:
  assumes "rand_ok R" and "faults st = []"
  shows "fst (insert_loop R st rng d spike ss) = None
       \<and> faults (fst (snd (insert_loop R st rng d spike ss))) = []
       \<and> trace (fst (snd (insert_loop R st rng d spike ss)))
           = trace st @ map (\<lambda>(s, a). UpsertCost d s a) (loop_amounts R rng spike ss)
       \<and> snd (snd (insert_loop R st rng d spike ss)) = loop_rng R rng ss"
  using assms(2)
proof (induction ss arbitrary: st rng)
  case Nil
  then show ?case by simp
next
  case (Cons s ss)
  let ?a = "sample_amount (fst (Float64 R rng)) s spike"
  from rand_ok_storable [OF assms(1), of rng s spike] obtain c where c: "numeric_12_2 ?a = Some c"
    by auto
  note ok = exec_upsert_ok [OF Cons.prems c, of d s]
  let ?st1 = "(sent (UpsertCost d s ?a) st)\<lparr>daily_costs := upsert_row (daily_costs st) d s c ''USD''\<rparr>"
  have f1: "faults ?st1 = []" using Cons.prems by simp
  have t1: "trace ?st1 = trace st @ [UpsertCost d s ?a]" by simp
  from Cons.IH [OF f1, of "snd (Float64 R rng)"] ok t1 show ?case
    by (simp add: Let_def)
qed

lemma insert_loop_stored:
  assumes "rand_ok R" and "faults st = []" and "distinct ss" and "s \<in> set ss"
  shows "\<exists>a c. map_of (loop_amounts R rng spike ss) s = Some a \<and> numeric_12_2 a = Some c \<and>
           lookup_row (daily_costs (fst (snd (insert_loop R st rng d spike ss)))) d s
             = Some \<lparr>dc_date = d, dc_service = s, dc_amount = c, dc_currency = ''USD''\<rparr>"
  using assms(2-)
proof (induction ss arbitrary: st rng)
  case Nil
  then show ?case by simp
next
  case (Cons x ss)
  let ?a = "sample_amount (fst (Float64 R rng)) x spike"
  from rand_ok_storable [OF assms(1), of rng x spike] obtain c where c: "numeric_12_2 ?a = Some c"
    by auto
  note ok = exec_upsert_ok [OF Cons.prems(1) c, of d x]
  let ?st1 = "(sent (UpsertCost d x ?a) st)\<lparr>daily_costs := upsert_row (daily_costs st) d x c ''USD''\<rparr>"
  have f1: "faults ?st1 = []" using Cons.prems(1) by simp
  have run: "insert_loop R st rng d spike (x # ss) = insert_loop R ?st1 (snd (Float64 R rng)) d spike ss"
    using ok by (simp add: Let_def)
  show ?case
  proof (cases "x = s")
    case True
    with Cons.prems(2) have "s \<notin> set ss" by simp
    then have "lookup_row (daily_costs (fst (snd (insert_loop R ?st1 (snd (Float64 R rng)) d spike ss)))) d s
                 = lookup_row (daily_costs ?st1) d s"
      by (simp add: insert_loop_other_key)
    also have "\<dots> = Some \<lparr>dc_date = d, dc_service = s, dc_amount = c, dc_currency = ''USD''\<rparr>"
      using True by (simp add: lookup_upsert_row_same)
    finally show ?thesis using True c run by simp
  next
    case False
    with Cons.prems have d: "distinct ss" and m: "s \<in> set ss" by auto
    from Cons.IH [OF f1 d m, of "snd (Float64 R rng)"] False run show ?thesis by simp
  qed
qed

lemma insert_loop_presence:
  "lookup_row (daily_costs st) d' s' \<noteq> None \<Longrightarrow>
   lookup_row (daily_costs (fst (snd (insert_loop R st rng d spike ss)))) d' s' \<noteq> None"
proof (induction ss arbitrary: st rng)
  case Nil
  then show ?case by simp
next
  case (Cons s ss)
  let ?a = "sample_amount (fst (Float64 R rng)) s spike"
  obtain e st1 where step: "exec_upsert st d s ?a = (e, st1)"
    by (cases "exec_upsert st d s ?a")
  from exec_upsert_presence [OF Cons.prems, of d s ?a] step
  have p1: "lookup_row (daily_costs st1) d' s' \<noteq> None" by simp
  show ?case
  proof (cases e)
    case None
    with Cons.IH [OF p1] step show ?thesis by (simp add: Let_def del: not_None_eq)
  next
    case (Some x)
    with p1 step show ?thesis by (simp add: Let_def del: not_None_eq)
  qed
qed

lemma rand_ok_no_panic:
  assumes "rand_ok R"
  shows "insertSimulatedDay R st rng day =
           insert_loop R st (day_rng R rng) (Format_date day) (day_spike R rng) services"
proof -
  from assms have "fst (Intn R (snd (Intn R rng 14)) (length services)) < length services"
    by (simp add: rand_ok_def services_def)
  then show ?thesis by (simp add: insertSimulatedDay_cases)
qed

lemma insertSimulatedDay_ok:
  assumes "rand_ok R" and "faults st = []"
  shows "fst (insertSimulatedDay R st rng day) = None
       \<and> faults (fst (snd (insertSimulatedDay R st rng day))) = []
       \<and> trace (fst (snd (insertSimulatedDay R st rng day)))
           = trace st @ map (\<lambda>(s, a). UpsertCost (Format_date day) s a) (day_amounts R rng)
       \<and> snd (snd (insertSimulatedDay R st rng day)) = loop_rng R (day_rng R rng) services"
  using insert_loop_ok [OF assms, of "day_rng R rng" "Format_date day" "day_spike R rng" services]
  by (simp add: rand_ok_no_panic [OF assms(1)] day_amounts_def)

lemma insertSimulatedDay_stored:
  assumes "rand_ok R" and "faults st = []" and "s \<in> set services"
  shows "\<exists>a c. map_of (day_amounts R rng) s = Some a \<and> numeric_12_2 a = Some c \<and>
           lookup_row (daily_costs (fst (snd (insertSimulatedDay R st rng day)))) (Format_date day) s
             = Some \<lparr>dc_date = Format_date day, dc_service = s, dc_amount = c, dc_currency = ''USD''\<rparr>"
  using insert_loop_stored [OF assms(1,2) distinct_services assms(3),
      of "day_rng R rng" "day_spike R rng" "Format_date day"]
  by (simp add: rand_ok_no_panic [OF assms(1)] day_amounts_def)

lemma insertSimulatedDay_presence:
  "lookup_row (daily_costs st) d' s' \<noteq> None \<Longrightarrow>
   lookup_row (daily_costs (fst (snd (insertSimulatedDay R st rng day)))) d' s' \<noteq> None"
  using insert_loop_presence [of st d' s' R "day_rng R rng" "Format_date day" "day_spike R rng" services]
  by (simp add: insertSimulatedDay_cases del: not_None_eq)

lemma upsert_pair_map [simp]:
  "map upsert_pair (map (\<lambda>(s, a). UpsertCost d s a) xs) = map Some xs"
  by (induction xs) auto

lemma upsert_services_map:
  "map (map_option fst \<circ> upsert_pair) (map (\<lambda>(s, a). UpsertCost d s a) xs) = map Some (map fst xs)"
  by (induction xs) auto

lemma loop_amounts_services [simp]: "map fst (loop_amounts R rng spike ss) = ss"
  by (induction ss arbitrary: rng) auto

text \<open>
  Claim C6. The amounts of a day depend on the generator alone. Take two runs of
  \<^verbatim>\<open>insertSimulatedDay\<close> with generators made from the same seed, on any two available
  stores and for any two dates (the same date in particular), with a generator that
  keeps the contract of the library. Both succeed; they send upserts with the same
  services and amounts, one for every tracked service in the order of the list; the
  rows they leave for their date hold the same amount for every tracked service; and
  they leave the generator in the same state.
\<close>

theorem sampling_deterministic:
  fixes R :: "'r rand" and st1 st2 :: state and seed :: int and day1 day2 :: time
  assumes "rand_ok R" and "faults st1 = []" and "faults st2 = []"
  defines "r1 \<equiv> insertSimulatedDay R st1 (NewSource R seed) day1"
    and "r2 \<equiv> insertSimulatedDay R st2 (NewSource R seed) day2"
  shows "fst r1 = None \<and> fst r2 = None
       \<and> map upsert_pair (new_trace st1 (fst (snd r1))) = map upsert_pair (new_trace st2 (fst (snd r2)))
       \<and> map (map_option fst \<circ> upsert_pair) (new_trace st1 (fst (snd r1))) = map Some services
       \<and> (\<forall>s \<in> set services.
            lookup_row (daily_costs (fst (snd r1))) (Format_date day1) s \<noteq> None \<and>
            map_option dc_amount (lookup_row (daily_costs (fst (snd r1))) (Format_date day1) s)
              = map_option dc_amount (lookup_row (daily_costs (fst (snd r2))) (Format_date day2) s))
       \<and> snd (snd r1) = snd (snd r2)"
proof -
  let ?rng = "NewSource R seed"
  note ok1 = insertSimulatedDay_ok [OF assms(1,2), of ?rng day1, folded r1_def]
  note ok2 = insertSimulatedDay_ok [OF assms(1,3), of ?rng day2, folded r2_def]
  have t1: "new_trace st1 (fst (snd r1))
              = map (\<lambda>(s, a). UpsertCost (Format_date day1) s a) (day_amounts R ?rng)"
    using ok1 by (simp add: new_trace_def)
  have t2: "new_trace st2 (fst (snd r2))
              = map (\<lambda>(s, a). UpsertCost (Format_date day2) s a) (day_amounts R ?rng)"
    using ok2 by (simp add: new_trace_def)
  have same: "map upsert_pair (new_trace st1 (fst (snd r1))) = map upsert_pair (new_trace st2 (fst (snd r2)))"
    by (simp add: t1 t2 del: map_map)
  have cover: "map (map_option fst \<circ> upsert_pair) (new_trace st1 (fst (snd r1))) = map Some services"
    unfolding t1 upsert_services_map by (simp add: day_amounts_def)
  have rows: "\<forall>s \<in> set services.
            lookup_row (daily_costs (fst (snd r1))) (Format_date day1) s \<noteq> None \<and>
            map_option dc_amount (lookup_row (daily_costs (fst (snd r1))) (Format_date day1) s)
              = map_option dc_amount (lookup_row (daily_costs (fst (snd r2))) (Format_date day2) s)"
  proof
    fix s assume s: "s \<in> set services"
    from insertSimulatedDay_stored [OF assms(1,2) s, of ?rng day1, folded r1_def]
      insertSimulatedDay_stored [OF assms(1,3) s, of ?rng day2, folded r2_def]
    show "lookup_row (daily_costs (fst (snd r1))) (Format_date day1) s \<noteq> None \<and>
            map_option dc_amount (lookup_row (daily_costs (fst (snd r1))) (Format_date day1) s)
              = map_option dc_amount (lookup_row (daily_costs (fst (snd r2))) (Format_date day2) s)"
      by auto
  qed
  from ok1 ok2 same cover rows show ?thesis by simp
qed


theorem sampling_deterministic_witness:
  "rand_ok counter_rand \<and> faults empty_state = [] \<and> faults (compute_state 15.01) = []
   \<and> map upsert_pair (new_trace empty_state
        (fst (snd (insertSimulatedDay counter_rand empty_state (NewSource counter_rand 42) 0))))
     = map upsert_pair (new_trace (compute_state 15.01)
        (fst (snd (insertSimulatedDay counter_rand (compute_state 15.01) (NewSource counter_rand 42)
                     nanos_per_day))))"
proof -
  have h2: "faults empty_state = []" by (simp add: empty_state_def)
  have h3: "faults (compute_state 15.01) = []" by (simp add: compute_state_def empty_state_def)
  from sampling_deterministic [OF rand_ok_counter_rand h2 h3, of 42 0 nanos_per_day]
    rand_ok_counter_rand h2 h3
  show ?thesis by simp
qed

text \<open>The draws of the small generator seeded with 42: ''network'' spikes.\<close>

lemma day_amounts_example:
  "day_amounts counter_rand (NewSource counter_rand 42) =
     [(''compute'', 2.94), (''storage'', 0.8), (''db'', 1.56), (''network'', 2.16)]"
  by (simp add: day_amounts_def day_rng_def day_spike_def counter_rand_def services_def
      sample_amount_def baseline_def Let_def)

section \<open>Backfill\<close>

lemma backfill_loop_ok:
  assumes "rand_ok R" and "faults st = []"
  shows "fst (backfill_loop R st rng start is) = None
       \<and> faults (fst (snd (backfill_loop R st rng start is))) = []
       \<and> trace (fst (snd (backfill_loop R st rng start is)))
           = trace st @ backfill_stmts R rng start is"
  using assms(2)
proof (induction "is" arbitrary: st rng)
  case Nil
  then show ?case by simp
next
  case (Cons i "is")
  let ?day = "AddDate start (int i)"
  obtain e st1 rng1 where step: "insertSimulatedDay R st rng ?day = (e, st1, rng1)"
    by (cases "insertSimulatedDay R st rng ?day")
  from insertSimulatedDay_ok [OF assms(1) Cons.prems, of rng ?day] step
  have e: "e = None" and f1: "faults st1 = []"
    and t1: "trace st1 = trace st @ map (\<lambda>(s, a). UpsertCost (Format_date ?day) s a) (day_amounts R rng)"
    and r1: "rng1 = loop_rng R (day_rng R rng) services"
    by simp_all
  from Cons.IH [OF f1, of rng1] step e t1 r1 show ?case
    by (simp add: Let_def)
qed

lemma backfill_loop_presence:
  "lookup_row (daily_costs st) d' s' \<noteq> None \<Longrightarrow>
   lookup_row (daily_costs (fst (snd (backfill_loop R st rng start is)))) d' s' \<noteq> None"
proof (induction "is" arbitrary: st rng)
  case Nil
  then show ?case by simp
next
  case (Cons i "is")
  let ?day = "AddDate start (int i)"
  obtain e st1 rng1 where step: "insertSimulatedDay R st rng ?day = (e, st1, rng1)"
    by (cases "insertSimulatedDay R st rng ?day")
  from insertSimulatedDay_presence [OF Cons.prems, of R rng ?day] step
  have p1: "lookup_row (daily_costs st1) d' s' \<noteq> None" by simp
  show ?case
  proof (cases e)
    case None
    with Cons.IH [OF p1] step show ?thesis by (simp add: Let_def del: not_None_eq)
  next
    case (Some x)
    with p1 step show ?thesis by (simp add: Let_def del: not_None_eq)
  qed
qed

lemma backfill_loop_rows:
  assumes "rand_ok R" and "faults st = []" and "i \<in> set is" and "s \<in> set services"
  shows "lookup_row (daily_costs (fst (snd (backfill_loop R st rng start is))))
           (Format_date start + int i) s \<noteq> None"
  using assms(2,3)
proof (induction "is" arbitrary: st rng)
  case Nil
  then show ?case by simp
next
  case (Cons j "is")
  let ?day = "AddDate start (int j)"
  obtain e st1 rng1 where step: "insertSimulatedDay R st rng ?day = (e, st1, rng1)"
    by (cases "insertSimulatedDay R st rng ?day")
  from insertSimulatedDay_ok [OF assms(1) Cons.prems(1), of rng ?day] step
  have e: "e = None" and f1: "faults st1 = []" by simp_all
  have run: "backfill_loop R st rng start (j # is) = backfill_loop R st1 rng1 start is"
    using step e by (simp add: Let_def)
  show ?case
  proof (cases "i = j")
    case True
    from insertSimulatedDay_stored [OF assms(1) Cons.prems(1) assms(4), of rng ?day] step True
    have "lookup_row (daily_costs st1) (Format_date start + int i) s \<noteq> None" by auto
    from backfill_loop_presence [OF this] run show ?thesis by (simp del: not_None_eq)
  next
    case False
    with Cons.prems(2) have "i \<in> set is" by simp
    from Cons.IH [OF f1 this] run show ?thesis by (simp del: not_None_eq)
  qed
qed

lemma day_amounts_services [simp]: "map fst (day_amounts R rng) = services"
  by (simp add: day_amounts_def)

lemma day_amounts_length [simp]: "length (day_amounts R rng) = length services"
  by (metis day_amounts_services length_map)

lemma day_stmts_dates:
  "map stmt_date (map (\<lambda>(s, a). UpsertCost d s a) xs) = replicate (length xs) (Some d)"
  by (induction xs) auto

lemma day_stmts_services:
  "map stmt_service (map (\<lambda>(s, a). UpsertCost d s a) xs) = map Some (map fst xs)"
  by (induction xs) auto

lemma day_stmts_upserts:
  "list_all is_upsert (map (\<lambda>(s, a). UpsertCost d s a) xs)"
  by (induction xs) auto

lemma backfill_stmts_dates:
  "map stmt_date (backfill_stmts R rng start is) =
     concat (map (\<lambda>i. replicate (length services) (Some (Format_date start + int i))) is)"
  by (induction "is" arbitrary: rng) (simp_all add: day_stmts_dates del: map_map)

lemma backfill_stmts_services:
  "map stmt_service (backfill_stmts R rng start is) =
     concat (replicate (length is) (map Some services))"
  by (induction "is" arbitrary: rng) (simp_all add: day_stmts_services del: map_map)

lemma backfill_stmts_upserts:
  "list_all is_upsert (backfill_stmts R rng start is)"
  by (induction "is" arbitrary: rng) (simp_all add: day_stmts_upserts)

lemma backfill_stmts_length:
  "length (backfill_stmts R rng start is) = length services * length is"
  by (induction "is" arbitrary: rng) simp_all

lemma detect_loop_first:
  "\<exists>rest. trace (snd (detect_loop st d (s # ss))) = trace st @ SelectAmount d s # rest"
proof -
  obtain e st1 where step: "detect_service st d s = (e, st1)"
    by (cases "detect_service st d s")
  have "\<exists>r1. trace (snd (detect_service st d s)) = trace st @ SelectAmount d s # r1"
    by (simp add: detect_service_def query_amount_def query_avg7_def exec_insert_alert_def
        Let_def split: option.splits)
  with step obtain r1 where r1: "trace st1 = trace st @ SelectAmount d s # r1" by auto
  show ?thesis
  proof (cases e)
    case (Some x)
    with step r1 show ?thesis by simp
  next
    case None
    from detect_loop_trace [of st1 d ss] obtain new where
      "trace (snd (detect_loop st1 d ss)) = trace st1 @ new" by blast
    with None step r1 show ?thesis by simp
  qed
qed

lemma generateAndCheckToday_ok:
  assumes "rand_ok R" and "faults st = []"
  shows "fst (generateAndCheckToday R st seed_time today) = None
       \<and> faults (snd (generateAndCheckToday R st seed_time today)) = []
       \<and> (\<exists>dets. trace (snd (generateAndCheckToday R st seed_time today))
             = trace st
               @ map (\<lambda>(s, a). UpsertCost (Format_date today) s a)
                   (day_amounts R (NewSource R seed_time))
               @ dets
           \<and> dets \<noteq> []
           \<and> (\<forall>q \<in> set dets. \<not> is_upsert q \<and> stmt_date q = Some (Format_date today)))"
proof -
  let ?rng = "NewSource R seed_time"
  let ?d = "Format_date today"
  obtain e st1 rng1 where step: "insertSimulatedDay R st ?rng today = (e, st1, rng1)"
    by (cases "insertSimulatedDay R st ?rng today")
  from insertSimulatedDay_ok [OF assms, of ?rng today] step
  have e: "e = None" and f1: "faults st1 = []"
    and t1: "trace st1 = trace st @ map (\<lambda>(s, a). UpsertCost ?d s a) (day_amounts R ?rng)"
    by simp_all
  have run: "generateAndCheckToday R st seed_time today = detect_loop st1 ?d services"
    using step e by (simp add: generateAndCheckToday_def detectAnomaliesForDate_def)
  have present: "\<forall>s \<in> set services. lookup_row (daily_costs st1) ?d s \<noteq> None"
  proof
    fix s assume "s \<in> set services"
    from insertSimulatedDay_stored [OF assms this, of ?rng today] step
    show "lookup_row (daily_costs st1) ?d s \<noteq> None" by auto
  qed
  note ok = detect_loop_present [OF f1 present]
  from detect_loop_trace [of st1 ?d services] obtain dets where
    dets: "trace (snd (detect_loop st1 ?d services)) = trace st1 @ dets"
      "\<forall>q \<in> set dets. \<not> is_upsert q \<and> stmt_date q = Some ?d"
    by blast
  from detect_loop_first [of st1 ?d "''compute''" "[''storage'', ''db'', ''network'']"]
  obtain rest where "trace (snd (detect_loop st1 ?d services)) = trace st1 @ SelectAmount ?d ''compute'' # rest"
    by (auto simp: services_def)
  with dets(1) have ne: "dets \<noteq> []" by auto
  from ok run t1 dets ne show ?thesis by auto
qed

lemma generateAndCheckToday_presence:
  "lookup_row (daily_costs st) d' s' \<noteq> None \<Longrightarrow>
   lookup_row (daily_costs (snd (generateAndCheckToday R st seed_time today))) d' s' \<noteq> None"
proof -
  assume a: "lookup_row (daily_costs st) d' s' \<noteq> None"
  obtain e st1 rng1 where step: "insertSimulatedDay R st (NewSource R seed_time) today = (e, st1, rng1)"
    by (cases "insertSimulatedDay R st (NewSource R seed_time) today")
  from insertSimulatedDay_presence [OF a, of R "NewSource R seed_time" today] step
  have "lookup_row (daily_costs st1) d' s' \<noteq> None" by simp
  with step show ?thesis
    by (cases e) (simp_all add: generateAndCheckToday_def detectAnomaliesForDate_def del: not_None_eq)
qed


lemma concat_replicate_snoc:
  "concat (replicate n xs) @ xs = xs @ concat (replicate n xs)"
  by (induction n) simp_all

lemma backfill_ok:
  assumes "rand_ok R" and "faults st = []"
  shows "fst (backfill R st now days seed_time today) = None
       \<and> (\<exists>dets. trace (snd (backfill R st now days seed_time today))
             = trace st
               @ (backfill_stmts R (NewSource R 42) (AddDate now (- days + 1)) [0..<nat days]
                  @ map (\<lambda>(s, a). UpsertCost (Format_date today) s a)
                      (day_amounts R (NewSource R seed_time)))
               @ dets
           \<and> dets \<noteq> []
           \<and> (\<forall>q \<in> set dets. \<not> is_upsert q \<and> stmt_date q = Some (Format_date today)))"
proof -
  let ?start = "AddDate now (- days + 1)"
  let ?rng = "NewSource R 42"
  let ?is = "[0..<nat days]"
  let ?B = "backfill_stmts R ?rng ?start ?is"
  let ?T = "map (\<lambda>(s, a). UpsertCost (Format_date today) s a) (day_amounts R (NewSource R seed_time))"
  obtain e st1 rng1 where loop: "backfill_loop R st ?rng ?start ?is = (e, st1, rng1)"
    by (cases "backfill_loop R st ?rng ?start ?is")
  from backfill_loop_ok [OF assms(1,2), of ?rng ?start ?is] loop
  have e: "e = None" and f1: "faults st1 = []" and t1: "trace st1 = trace st @ ?B"
    by simp_all
  have run: "backfill R st now days seed_time today = generateAndCheckToday R st1 seed_time today"
    using loop e by (simp add: backfill_def Let_def)
  from generateAndCheckToday_ok [OF assms(1) f1, of seed_time today] obtain dets where
    ok: "fst (generateAndCheckToday R st1 seed_time today) = None"
    and t2: "trace (snd (generateAndCheckToday R st1 seed_time today)) = trace st1 @ ?T @ dets"
    and ne: "dets \<noteq> []"
    and dd: "\<forall>q \<in> set dets. \<not> is_upsert q \<and> stmt_date q = Some (Format_date today)"
    by blast
  from run ok t1 t2 ne dd show ?thesis by auto
qed

lemma backfill_rows:
  assumes "rand_ok R" and "faults st = []" and "i < nat days" and "s \<in> set services"
  shows "lookup_row (daily_costs (snd (backfill R st now days seed_time today)))
           (Format_date now - days + 1 + int i) s \<noteq> None"
proof -
  let ?start = "AddDate now (- days + 1)"
  let ?rng = "NewSource R 42"
  let ?is = "[0..<nat days]"
  obtain e st1 rng1 where loop: "backfill_loop R st ?rng ?start ?is = (e, st1, rng1)"
    by (cases "backfill_loop R st ?rng ?start ?is")
  from backfill_loop_ok [OF assms(1,2), of ?rng ?start ?is] loop
  have e: "e = None" by simp
  have run: "backfill R st now days seed_time today = generateAndCheckToday R st1 seed_time today"
    using loop e by (simp add: backfill_def Let_def)
  from assms(3) have "i \<in> set ?is" by simp
  from backfill_loop_rows [OF assms(1,2) this assms(4), of ?rng ?start] loop
  have "lookup_row (daily_costs st1) (Format_date now - days + 1 + int i) s \<noteq> None"
    by (simp add: algebra_simps del: not_None_eq)
  from generateAndCheckToday_presence [OF this, of R seed_time today] run
  show ?thesis by (simp del: not_None_eq)
qed

text \<open>
  Claim C5. On an available store, with a generator that keeps the contract of the
  library, \<^verbatim>\<open>backfill\<close> with depth \<open>days\<close> succeeds, and the statements it sends are, in
  this order: the upserts of each of the \<open>days\<close> calendar days that end with the date of
  \<open>now\<close>, oldest day first, one upsert for every tracked service; the upserts of the date
  of \<open>today\<close>, sampled again by \<^verbatim>\<open>generateAndCheckToday\<close>; and then the statements of the
  detector, at least one and every one of them for the date of \<open>today\<close>. So the detector
  runs for today only, after all days have been written, and the rows of all the
  \<open>days\<close> days are in the table.
\<close>

theorem backfill_order:
  fixes R :: "'r rand" and st :: state and now seed_time today :: time and days :: int
  assumes "rand_ok R" and "faults st = []"
  defines "st' \<equiv> snd (backfill R st now days seed_time today)"
    and "n \<equiv> length services * (nat days + 1)"
  shows "fst (backfill R st now days seed_time today) = None
       \<and> map stmt_date (take n (new_trace st st'))
           = concat (map (\<lambda>i. replicate (length services) (Some (Format_date now - days + 1 + int i)))
                       [0..<nat days])
             @ replicate (length services) (Some (Format_date today))
       \<and> map stmt_service (take n (new_trace st st'))
           = concat (replicate (nat days + 1) (map Some services))
       \<and> list_all is_upsert (take n (new_trace st st'))
       \<and> drop n (new_trace st st') \<noteq> []
       \<and> (\<forall>q \<in> set (drop n (new_trace st st')).
            \<not> is_upsert q \<and> stmt_date q = Some (Format_date today))
       \<and> (\<forall>i < nat days. \<forall>s \<in> set services.
            lookup_row (daily_costs st') (Format_date now - days + 1 + int i) s \<noteq> None)"
proof -
  let ?B = "backfill_stmts R (NewSource R 42) (AddDate now (- days + 1)) [0..<nat days]"
  let ?T = "map (\<lambda>(s, a). UpsertCost (Format_date today) s a) (day_amounts R (NewSource R seed_time))"
  from backfill_ok [OF assms(1,2), of now days seed_time today] obtain dets where
    c1: "fst (backfill R st now days seed_time today) = None"
    and tr: "trace st' = trace st @ (?B @ ?T) @ dets"
    and ne: "dets \<noteq> []"
    and dd: "\<forall>q \<in> set dets. \<not> is_upsert q \<and> stmt_date q = Some (Format_date today)"
    unfolding st'_def by blast
  have nt: "new_trace st st' = (?B @ ?T) @ dets"
    using tr by (simp add: new_trace_def)
  have len: "length (?B @ ?T) = n"
    by (simp add: n_def backfill_stmts_length)
  have tk: "take n (new_trace st st') = ?B @ ?T"
    unfolding nt using len by simp
  have dr: "drop n (new_trace st st') = dets"
    unfolding nt using len by simp
  have c2: "map stmt_date (take n (new_trace st st'))
           = concat (map (\<lambda>i. replicate (length services) (Some (Format_date now - days + 1 + int i)))
                       [0..<nat days])
             @ replicate (length services) (Some (Format_date today))"
    unfolding tk by (simp add: backfill_stmts_dates day_stmts_dates algebra_simps del: map_map)
  have c3: "map stmt_service (take n (new_trace st st'))
           = concat (replicate (nat days + 1) (map Some services))"
    unfolding tk
    by (simp add: backfill_stmts_services day_stmts_services concat_replicate_snoc del: map_map)
  have c4: "list_all is_upsert (take n (new_trace st st'))"
    unfolding tk by (simp add: backfill_stmts_upserts day_stmts_upserts)
  have c5: "drop n (new_trace st st') \<noteq> []"
    unfolding dr by (rule ne)
  have c6: "\<forall>q \<in> set (drop n (new_trace st st')).
            \<not> is_upsert q \<and> stmt_date q = Some (Format_date today)"
    unfolding dr by (rule dd)
  have c7: "\<forall>i < nat days. \<forall>s \<in> set services.
            lookup_row (daily_costs st') (Format_date now - days + 1 + int i) s \<noteq> None"
    unfolding st'_def using backfill_rows [OF assms(1,2)] by blast
  show ?thesis
    by (rule conjI [OF c1 conjI [OF c2 conjI [OF c3 conjI [OF c4 conjI [OF c5 conjI [OF c6 c7]]]]]])
qed

theorem backfill_order_witness:
  "rand_ok counter_rand \<and> faults empty_state = []
   \<and> fst (backfill counter_rand empty_state 0 2 7 0) = None
   \<and> map stmt_date (take 12 (new_trace empty_state (snd (backfill counter_rand empty_state 0 2 7 0))))
       = [Some (- 1), Some (- 1), Some (- 1), Some (- 1), Some 0, Some 0, Some 0, Some 0,
          Some 0, Some 0, Some 0, Some 0]
   \<and> drop 12 (new_trace empty_state (snd (backfill counter_rand empty_state 0 2 7 0))) \<noteq> []"
proof -
  have h2: "faults empty_state = []" by (simp add: empty_state_def)
  have n: "length services * (nat 2 + 1) = 12" by (simp add: services_def)
  have ds: "concat (map (\<lambda>i. replicate (length services) (Some (Format_date 0 - 2 + 1 + int i)))
                       [0..<nat 2])
             @ replicate (length services) (Some (Format_date 0))
           = [Some (- 1), Some (- 1), Some (- 1), Some (- 1), Some 0, Some 0, Some 0, Some 0,
              Some 0, Some 0, Some 0, Some (0 :: int)]"
    by (simp add: services_def upt_rec numeral_2_eq_2)
  from backfill_order [OF rand_ok_counter_rand h2, of 0 2 7 0] rand_ok_counter_rand h2
  show ?thesis unfolding n ds by simp
qed

section \<open>Errors are not panics\<close>

lemma exec_upsert_no_panic:
  "fst (exec_upsert st d s a) = Some e \<Longrightarrow> \<not> is_panic e"
  by (auto simp: exec_upsert_def Let_def split: if_splits option.splits)

lemma insert_loop_no_panic:
  "fst (insert_loop R st rng d spike ss) = Some e \<Longrightarrow> \<not> is_panic e"
proof (induction ss arbitrary: st rng)
  case Nil
  then show ?case by simp
next
  case (Cons s ss)
  let ?a = "sample_amount (fst (Float64 R rng)) s spike"
  obtain e1 st1 where step: "exec_upsert st d s ?a = (e1, st1)"
    by (cases "exec_upsert st d s ?a")
  show ?case
  proof (cases e1)
    case None
    with Cons.prems step have "fst (insert_loop R st1 (snd (Float64 R rng)) d spike ss) = Some e"
      by (simp add: Let_def)
    then show ?thesis by (rule Cons.IH)
  next
    case (Some x)
    with Cons.prems step have "e = x" by (simp add: Let_def)
    with exec_upsert_no_panic [of st d s ?a x] step Some show ?thesis by simp
  qed
qed

lemma detect_service_no_panic:
  "fst (detect_service st d s) = Some e \<Longrightarrow> \<not> is_panic e"
  by (auto simp: detect_service_def query_amount_def query_avg7_def exec_insert_alert_def
      Let_def split: if_splits option.splits)

lemma detect_loop_no_panic:
  "fst (detect_loop st d ss) = Some e \<Longrightarrow> \<not> is_panic e"
proof (induction ss arbitrary: st)
  case Nil
  then show ?case by simp
next
  case (Cons s ss)
  obtain e1 st1 where step: "detect_service st d s = (e1, st1)"
    by (cases "detect_service st d s")
  show ?case
  proof (cases e1)
    case None
    with Cons.prems step have "fst (detect_loop st1 d ss) = Some e" by simp
    then show ?thesis by (rule Cons.IH)
  next
    case (Some x)
    with Cons.prems step have "e = x" by simp
    with detect_service_no_panic [of st d s x] step Some show ?thesis by simp
  qed
qed

lemma insertSimulatedDay_no_panic:
  assumes "rand_ok R" and "fst (insertSimulatedDay R st rng day) = Some e"
  shows "\<not> is_panic e"
  using assms(2) insert_loop_no_panic [of R st "day_rng R rng" "Format_date day" "day_spike R rng" services e]
  by (simp add: rand_ok_no_panic [OF assms(1)])

lemma generateAndCheckToday_no_panic:
  assumes "rand_ok R" and "fst (generateAndCheckToday R st seed_time today) = Some e"
  shows "\<not> is_panic e"
proof -
  obtain e1 st1 rng1 where step: "insertSimulatedDay R st (NewSource R seed_time) today = (e1, st1, rng1)"
    by (cases "insertSimulatedDay R st (NewSource R seed_time) today")
  show ?thesis
  proof (cases e1)
    case None
    with assms(2) step have "fst (detect_loop st1 (Format_date today) services) = Some e"
      by (simp add: generateAndCheckToday_def detectAnomaliesForDate_def)
    then show ?thesis by (rule detect_loop_no_panic)
  next
    case (Some x)
    with assms(2) step have "e = x" by (simp add: generateAndCheckToday_def)
    with insertSimulatedDay_no_panic [OF assms(1), of st "NewSource R seed_time" today x] step Some
    show ?thesis by simp
  qed
qed

lemma backfill_loop_no_panic:
  assumes "rand_ok R"
  shows "fst (backfill_loop R st rng start is) = Some e \<Longrightarrow> \<not> is_panic e"
proof (induction "is" arbitrary: st rng)
  case Nil
  then show ?case by simp
next
  case (Cons i "is")
  let ?day = "AddDate start (int i)"
  obtain e1 st1 rng1 where step: "insertSimulatedDay R st rng ?day = (e1, st1, rng1)"
    by (cases "insertSimulatedDay R st rng ?day")
  show ?case
  proof (cases e1)
    case None
    with Cons.prems step have "fst (backfill_loop R st1 rng1 start is) = Some e"
      by (simp add: Let_def)
    then show ?thesis by (rule Cons.IH)
  next
    case (Some x)
    with Cons.prems step have "e = x" by (simp add: Let_def)
    with insertSimulatedDay_no_panic [OF assms, of st rng ?day x] step Some show ?thesis by simp
  qed
qed

lemma backfill_no_panic:
  assumes "rand_ok R" and "fst (backfill R st now days seed_time today) = Some e"
  shows "\<not> is_panic e"
proof -
  let ?l = "backfill_loop R st (NewSource R 42) (AddDate now (- days + 1)) [0..<nat days]"
  obtain e1 st1 rng1 where step: "?l = (e1, st1, rng1)" by (cases ?l)
  show ?thesis
  proof (cases e1)
    case None
    with assms(2) step have "fst (generateAndCheckToday R st1 seed_time today) = Some e"
      by (simp add: backfill_def Let_def)
    with assms(1) show ?thesis by (rule generateAndCheckToday_no_panic)
  next
    case (Some x)
    with assms(2) step have "e = x" by (simp add: backfill_def Let_def)
    with backfill_loop_no_panic [OF assms(1), of st "NewSource R 42" "AddDate now (- days + 1)" "[0..<nat days]" x]
      step Some show ?thesis by simp
  qed
qed

section \<open>The loop of the scheduler\<close>

lemma scheduler_tick_running:
  assumes "rand_ok R"
  shows "scheduler_tick R st tick =
           (Running,
            case fst (generateAndCheckToday R st (fst tick) (snd tick)) of
              None \<Rightarrow> snd (generateAndCheckToday R st (fst tick) (snd tick))
            | Some e \<Rightarrow> log_Println (LogSchedulerError e)
                         (snd (generateAndCheckToday R st (fst tick) (snd tick))))"
proof -
  obtain e st1 where step: "generateAndCheckToday R st (fst tick) (snd tick) = (e, st1)"
    by (cases "generateAndCheckToday R st (fst tick) (snd tick)")
  show ?thesis
  proof (cases e)
    case None
    with step show ?thesis by (simp add: scheduler_tick_def)
  next
    case (Some x)
    with generateAndCheckToday_no_panic [OF assms, of st "fst tick" "snd tick" x] step
    show ?thesis by (simp add: scheduler_tick_def)
  qed
qed

lemma scheduler_loop_append:
  "scheduler_loop R st (xs @ ys) =
     (case scheduler_loop R st xs of
        (Crashed, st1) \<Rightarrow> (Crashed, st1)
      | (Running, st1) \<Rightarrow> scheduler_loop R st1 ys)"
  by (induction xs arbitrary: st) (auto split: prod.splits proc.splits)

lemma scheduler_loop_running:
  assumes "rand_ok R"
  shows "fst (scheduler_loop R st ticks) = Running"
proof (induction ticks arbitrary: st)
  case Nil
  show ?case by simp
next
  case (Cons tick ticks)
  from scheduler_tick_running [OF assms, of st tick] Cons.IH show ?case by simp
qed

text \<open>
  Claim C9. With a generator that keeps the contract of the library, no tick ends the
  loop of the scheduler: after any list of ticks, on any state and whatever the store
  does, the loop is still running; the loop over the ticks followed by one more tick is
  that tick run on the state the earlier ticks left, whether or not they failed; a tick
  whose call of \<^verbatim>\<open>generateAndCheckToday\<close> returns an error leaves the error in the log and
  the loop running; and the same holds when the backfill at the start fails.
\<close>

theorem scheduler_survives_errors:
  assumes "rand_ok R"
  shows "fst (scheduler_loop R st ticks) = Running
       \<and> scheduler_loop R st (ticks @ [tick])
           = scheduler_tick R (snd (scheduler_loop R st ticks)) tick
       \<and> fst (scheduler_tick R st tick) = Running
       \<and> (\<forall>e. fst (generateAndCheckToday R st (fst tick) (snd tick)) = Some e \<longrightarrow>
            snd (scheduler_tick R st tick)
              = log_Println (LogSchedulerError e)
                  (snd (generateAndCheckToday R st (fst tick) (snd tick))))
       \<and> fst (scheduler R st now tick0 ticks) = Running"
proof -
  note run = scheduler_loop_running [OF assms]
  have c2: "scheduler_loop R st (ticks @ [tick])
           = scheduler_tick R (snd (scheduler_loop R st ticks)) tick"
  proof -
    obtain p st1 where l: "scheduler_loop R st ticks = (p, st1)"
      by (cases "scheduler_loop R st ticks")
    with run [of st ticks] have "p = Running" by simp
    with l scheduler_tick_running [OF assms, of st1 tick] show ?thesis
      by (simp add: scheduler_loop_append)
  qed
  have c3: "fst (scheduler_tick R st tick) = Running"
    by (simp add: scheduler_tick_running [OF assms])
  have c4: "\<forall>e. fst (generateAndCheckToday R st (fst tick) (snd tick)) = Some e \<longrightarrow>
            snd (scheduler_tick R st tick)
              = log_Println (LogSchedulerError e)
                  (snd (generateAndCheckToday R st (fst tick) (snd tick)))"
    by (simp add: scheduler_tick_running [OF assms])
  have c5: "fst (scheduler R st now tick0 ticks) = Running"
  proof -
    obtain e st1 where b: "backfill R st now 14 (fst tick0) (snd tick0) = (e, st1)"
      by (cases "backfill R st now 14 (fst tick0) (snd tick0)")
    show ?thesis
    proof (cases e)
      case None
      with b run show ?thesis by (simp add: scheduler_def)
    next
      case (Some x)
      with backfill_no_panic [OF assms, of st now 14 "fst tick0" "snd tick0" x] b run
      show ?thesis by (simp add: scheduler_def)
    qed
  qed
  show ?thesis
    by (rule conjI [OF run conjI [OF c2 conjI [OF c3 conjI [OF c4 c5]]]])
qed

text \<open>The store fails on the first statement of a tick: the error is logged and the
  loop goes on with the next tick.\<close>

lemma failing_tick_example:
  "generateAndCheckToday counter_rand (empty_state\<lparr>faults := [SendError]\<rparr>) 0 0 =
     (Some ErrStore, empty_state\<lparr>trace := [UpsertCost 0 ''compute'' 2.82]\<rparr>)"
  by (simp add: generateAndCheckToday_def insertSimulatedDay_def counter_rand_def services_def
      sample_amount_def baseline_def exec_upsert_def stmt_fails_def sent_def empty_state_def
      Let_def)

theorem scheduler_survives_errors_witness:
  "rand_ok counter_rand
   \<and> fst (generateAndCheckToday counter_rand (empty_state\<lparr>faults := [SendError]\<rparr>) 0 0) = Some ErrStore
   \<and> fst (scheduler_loop counter_rand (empty_state\<lparr>faults := [SendError]\<rparr>) [(0, 0), (30, 30)]) = Running
   \<and> logged (snd (scheduler_tick counter_rand (empty_state\<lparr>faults := [SendError]\<rparr>) (0, 0)))
       = [LogSchedulerError ErrStore]"
proof -
  note t = scheduler_survives_errors [OF rand_ok_counter_rand,
      of "empty_state\<lparr>faults := [SendError]\<rparr>" "[(0, 0), (30, 30)]" "(0, 0)"]
  from t have c1: "fst (scheduler_loop counter_rand (empty_state\<lparr>faults := [SendError]\<rparr>)
      [(0, 0), (30, 30)]) = Running" by (rule conjunct1)
  from t have "snd (scheduler_tick counter_rand (empty_state\<lparr>faults := [SendError]\<rparr>) (0, 0))
              = log_Println (LogSchedulerError ErrStore)
                  (snd (generateAndCheckToday counter_rand (empty_state\<lparr>faults := [SendError]\<rparr>) 0 0))"
    by (simp add: failing_tick_example)
  then have "snd (scheduler_tick counter_rand (empty_state\<lparr>faults := [SendError]\<rparr>) (0, 0))
              = log_Println (LogSchedulerError ErrStore)
                  (empty_state\<lparr>trace := [UpsertCost 0 ''compute'' 2.82]\<rparr>)"
    by (simp only: failing_tick_example snd_conv)
  then have c4: "logged (snd (scheduler_tick counter_rand (empty_state\<lparr>faults := [SendError]\<rparr>) (0, 0)))
       = [LogSchedulerError ErrStore]"
    by (simp add: empty_state_def)
  from rand_ok_counter_rand c1 c4 show ?thesis by (simp add: failing_tick_example)
qed

section \<open>Requests\<close>

lemma sscanf_examples:
  "sscanf_d ''abc'' = None"
  "sscanf_d ''0'' = Some 0"
  "sscanf_d ''366'' = Some 366"
  "sscanf_d ''14'' = Some 14"
  "sscanf_d ''-5'' = Some (- 5)"
  "sscanf_d ''+7'' = Some 7"
  "sscanf_d ''12abc'' = Some 12"
  "sscanf_d ''1_0'' = Some 1"
  "sscanf_d ''0_'' = Some 0"
  "sscanf_d ''400_1'' = Some 400"
  "sscanf_d ''  42'' = Some 42"
  "sscanf_d [CHR 0xC2, CHR 0xA0, CHR ''9'', CHR ''9'', CHR ''9''] = Some 999"
  "sscanf_d [CHR 0xE2, CHR 0x80, CHR 0x83, CHR ''7''] = Some 7"
  "sscanf_d [CHR 0x0A, CHR ''7''] = None"
  "sscanf_d ''- 5'' = None"
  "sscanf_d ''99999999999999999999'' = None"
  by (simp_all add: sscanf_d_def space_width_def is_digit_def decimal_value_def Let_def)

lemma sscanf_d_empty [simp]: "sscanf_d '''' = None"
  by (simp add: sscanf_d_def)

text \<open>
  Claim C7, as the program has it. A request to \<^verbatim>\<open>/costs\<close> or \<^verbatim>\<open>/alerts\<close> whose \<open>from\<close> or
  \<open>to\<close> parameter is missing, and a POST to \<^verbatim>\<open>/simulate/backfill\<close> whose \<open>days\<close> parameter
  scans as a number outside 1..365, is answered with status 400 and leaves the state as
  it was: no statement is sent and nothing is sampled, written or evaluated. A date
  range that is present is not examined: whatever the two texts are, the query is sent
  to the store with them and the answer is not 400. A depth that does not scan as a
  number is not examined either: the request is handled as if it had no \<open>days\<close>
  parameter.
\<close>

theorem invalid_requests_rejected:
  "(q_from req = '''' \<or> q_to req = '''' \<longrightarrow>
      handle_costs st req = (Status 400, st)
      \<and> handle_alerts st req = (Status 400, st))
   \<and> (req_method req = ''POST'' \<and> sscanf_d (q_days req) = Some n \<and> (n < 1 \<or> n > 365) \<longrightarrow>
      handle_backfill R st req now seed_time today = (Status 400, st))
   \<and> (q_from req \<noteq> '''' \<and> q_to req \<noteq> '''' \<longrightarrow>
      snd (handle_costs st req) = sent (SelectCosts (q_from req) (q_to req)) st
      \<and> fst (handle_costs st req) \<noteq> Status 400
      \<and> snd (handle_alerts st req) = sent (SelectAlerts (q_from req) (q_to req)) st
      \<and> fst (handle_alerts st req) \<noteq> Status 400)
   \<and> (sscanf_d (q_days req) = None \<longrightarrow>
      handle_backfill R st req now seed_time today
        = handle_backfill R st (req\<lparr>q_days := ''''\<rparr>) now seed_time today)"
proof -
  have a: "q_from req = '''' \<or> q_to req = '''' \<longrightarrow>
      handle_costs st req = (Status 400, st)
      \<and> handle_alerts st req = (Status 400, st)"
    by (simp add: handle_costs_def handle_alerts_def Let_def)
  have b: "req_method req = ''POST'' \<and> sscanf_d (q_days req) = Some n \<and> (n < 1 \<or> n > 365) \<longrightarrow>
      handle_backfill R st req now seed_time today = (Status 400, st)"
  proof (intro impI, elim conjE)
    assume m: "req_method req = ''POST''" and p: "sscanf_d (q_days req) = Some n"
      and r: "n < 1 \<or> n > 365"
    from p have "q_days req \<noteq> ''''" by auto
    with m p r show "handle_backfill R st req now seed_time today = (Status 400, st)"
      by (simp add: handle_backfill_def Let_def)
  qed
  have c: "q_from req \<noteq> '''' \<and> q_to req \<noteq> '''' \<longrightarrow>
      snd (handle_costs st req) = sent (SelectCosts (q_from req) (q_to req)) st
      \<and> fst (handle_costs st req) \<noteq> Status 400
      \<and> snd (handle_alerts st req) = sent (SelectAlerts (q_from req) (q_to req)) st
      \<and> fst (handle_alerts st req) \<noteq> Status 400"
    by (simp add: handle_costs_def handle_alerts_def Let_def)
  have d: "sscanf_d (q_days req) = None \<longrightarrow>
      handle_backfill R st req now seed_time today
        = handle_backfill R st (req\<lparr>q_days := ''''\<rparr>) now seed_time today"
  proof
    assume "sscanf_d (q_days req) = None"
    then show "handle_backfill R st req now seed_time today
        = handle_backfill R st (req\<lparr>q_days := ''''\<rparr>) now seed_time today"
      by (simp add: handle_backfill_def Let_def)
  qed
  from a b c d show ?thesis by (intro conjI)
qed

text \<open>A missing \<open>from\<close>; depths of 366, of \<^verbatim>\<open>0_\<close> (scanned as 0), of \<^verbatim>\<open>400_1\<close> (scanned as
  400) and of 999 after a no-break space: all answered with 400 and nothing done; and a
  date range that is present goes to the store.\<close>

theorem invalid_requests_rejected_witness:
  "q_from \<lparr>req_method = ''GET'', q_from = '''', q_to = ''2024-01-31'', q_days = ''''\<rparr> = ''''
   \<and> handle_costs empty_state
        \<lparr>req_method = ''GET'', q_from = '''', q_to = ''2024-01-31'', q_days = ''''\<rparr>
       = (Status 400, empty_state)
   \<and> sscanf_d ''366'' = Some 366
   \<and> handle_backfill counter_rand empty_state
        \<lparr>req_method = ''POST'', q_from = '''', q_to = '''', q_days = ''366''\<rparr> 0 0 0
       = (Status 400, empty_state)
   \<and> sscanf_d ''0_'' = Some 0
   \<and> handle_backfill counter_rand empty_state
        \<lparr>req_method = ''POST'', q_from = '''', q_to = '''', q_days = ''0_''\<rparr> 0 0 0
       = (Status 400, empty_state)
   \<and> sscanf_d ''400_1'' = Some 400
   \<and> handle_backfill counter_rand empty_state
        \<lparr>req_method = ''POST'', q_from = '''', q_to = '''', q_days = ''400_1''\<rparr> 0 0 0
       = (Status 400, empty_state)
   \<and> sscanf_d [CHR 0xC2, CHR 0xA0, CHR ''9'', CHR ''9'', CHR ''9''] = Some 999
   \<and> handle_backfill counter_rand empty_state
        \<lparr>req_method = ''POST'', q_from = '''', q_to = '''',
          q_days = [CHR 0xC2, CHR 0xA0, CHR ''9'', CHR ''9'', CHR ''9'']\<rparr> 0 0 0
       = (Status 400, empty_state)
   \<and> snd (handle_alerts empty_state
        \<lparr>req_method = ''GET'', q_from = ''2024-01-01'', q_to = ''2024-01-31'', q_days = ''''\<rparr>)
       = sent (SelectAlerts ''2024-01-01'' ''2024-01-31'') empty_state
   \<and> sscanf_d ''abc'' = None
   \<and> handle_backfill counter_rand empty_state
        \<lparr>req_method = ''POST'', q_from = '''', q_to = '''', q_days = ''abc''\<rparr> 0 0 0
       = handle_backfill counter_rand empty_state
        \<lparr>req_method = ''POST'', q_from = '''', q_to = '''', q_days = ''''\<rparr> 0 0 0"
proof -
  let ?r1 = "\<lparr>req_method = ''GET'', q_from = '''', q_to = ''2024-01-31'', q_days = ''''\<rparr>"
  let ?r3 = "\<lparr>req_method = ''GET'', q_from = ''2024-01-01'', q_to = ''2024-01-31'', q_days = ''''\<rparr>"
  let ?nb = "[CHR 0xC2, CHR 0xA0, CHR ''9'', CHR ''9'', CHR ''9'']"
  let ?p = "\<lambda>v. \<lparr>req_method = ''POST'', q_from = '''', q_to = '''', q_days = v\<rparr>"
  have h1: "q_from ?r1 = '''' \<or> q_to ?r1 = ''''" by simp
  have h2: "req_method (?p ''366'') = ''POST'' \<and> sscanf_d (q_days (?p ''366'')) = Some 366
              \<and> ((366 :: int) < 1 \<or> (366 :: int) > 365)"
    by (simp add: sscanf_examples)
  have h2a: "req_method (?p ''0_'') = ''POST'' \<and> sscanf_d (q_days (?p ''0_'')) = Some 0
              \<and> ((0 :: int) < 1 \<or> (0 :: int) > 365)"
    by (simp add: sscanf_examples)
  have h2b: "req_method (?p ''400_1'') = ''POST'' \<and> sscanf_d (q_days (?p ''400_1'')) = Some 400
              \<and> ((400 :: int) < 1 \<or> (400 :: int) > 365)"
    by (simp add: sscanf_examples)
  have h2c: "req_method (?p ?nb) = ''POST'' \<and> sscanf_d (q_days (?p ?nb)) = Some 999
              \<and> ((999 :: int) < 1 \<or> (999 :: int) > 365)"
    by (simp add: sscanf_examples)
  have h3: "q_from ?r3 \<noteq> '''' \<and> q_to ?r3 \<noteq> ''''" by simp
  have h4: "sscanf_d (q_days (?p ''abc'')) = None" by (simp add: sscanf_examples)
  from invalid_requests_rejected [of ?r1 empty_state 366 counter_rand 0 0 0] h1
  have c1: "handle_costs empty_state ?r1 = (Status 400, empty_state)" by blast
  from invalid_requests_rejected [of "?p ''366''" empty_state 366 counter_rand 0 0 0] h2
  have c2: "handle_backfill counter_rand empty_state (?p ''366'') 0 0 0 = (Status 400, empty_state)"
    by blast
  from invalid_requests_rejected [of "?p ''0_''" empty_state 0 counter_rand 0 0 0] h2a
  have c2a: "handle_backfill counter_rand empty_state (?p ''0_'') 0 0 0 = (Status 400, empty_state)"
    by blast
  from invalid_requests_rejected [of "?p ''400_1''" empty_state 400 counter_rand 0 0 0] h2b
  have c2b: "handle_backfill counter_rand empty_state (?p ''400_1'') 0 0 0 = (Status 400, empty_state)"
    by blast
  from invalid_requests_rejected [of "?p ?nb" empty_state 999 counter_rand 0 0 0] h2c
  have c2c: "handle_backfill counter_rand empty_state (?p ?nb) 0 0 0 = (Status 400, empty_state)"
    by blast
  from invalid_requests_rejected [of ?r3 empty_state 366 counter_rand 0 0 0] h3
  have c3: "snd (handle_alerts empty_state ?r3)
              = sent (SelectAlerts ''2024-01-01'' ''2024-01-31'') empty_state"
    by (simp del: sent_fields)
  from invalid_requests_rejected [of "?p ''abc''" empty_state 366 counter_rand 0 0 0] h4
  have c4: "handle_backfill counter_rand empty_state (?p ''abc'') 0 0 0
              = handle_backfill counter_rand empty_state (?p '''') 0 0 0"
    by simp
  have s: "sscanf_d ''366'' = Some 366" "sscanf_d ''0_'' = Some 0" "sscanf_d ''400_1'' = Some 400"
    "sscanf_d ?nb = Some 999" "sscanf_d ''abc'' = None"
    by (simp_all only: sscanf_examples)
  have q: "q_from ?r1 = ''''" by simp
  show ?thesis
    by (rule conjI [OF q conjI [OF c1 conjI [OF s(1) conjI [OF c2 conjI [OF s(2) conjI [OF c2a
        conjI [OF s(3) conjI [OF c2b conjI [OF s(4) conjI [OF c2c conjI [OF c3
        conjI [OF s(5) c4]]]]]]]]]]]])
qed

text \<open>The claim fails for requests that are present but malformed. A depth that is not
  a number is not rejected: \<^verbatim>\<open>days\<close> keeps its default of 30, the backfill runs, with its
  124 upserts and the detection, and the answer is 200. A date range that is not a date
  is not rejected at the boundary either: the query is sent to the store, and when the
  server returns an error for it the answer is 200.\<close>

theorem invalid_requests_rejected_counterexample:
  "sscanf_d ''abc'' = None
   \<and> fst (handle_backfill counter_rand empty_state
        \<lparr>req_method = ''POST'', q_from = '''', q_to = '''', q_days = ''abc''\<rparr> 0 0 0) = Status 200
   \<and> 124 < length (trace (snd (handle_backfill counter_rand empty_state
        \<lparr>req_method = ''POST'', q_from = '''', q_to = '''', q_days = ''abc''\<rparr> 0 0 0)))
   \<and> trace (snd (handle_costs empty_state
        \<lparr>req_method = ''GET'', q_from = ''yesterday-ish'', q_to = ''31/31/2024'', q_days = ''''\<rparr>))
       = [SelectCosts ''yesterday-ish'' ''31/31/2024'']
   \<and> handle_costs (empty_state\<lparr>faults := [ServerError]\<rparr>)
        \<lparr>req_method = ''GET'', q_from = ''yesterday-ish'', q_to = ''31/31/2024'', q_days = ''''\<rparr>
       = (Status 200, empty_state\<lparr>trace := [SelectCosts ''yesterday-ish'' ''31/31/2024'']\<rparr>)"
proof -
  let ?req = "\<lparr>req_method = ''POST'', q_from = '''', q_to = '''', q_days = ''abc''\<rparr>"
  have f: "faults empty_state = []" by (simp add: empty_state_def)
  from backfill_ok [OF rand_ok_counter_rand f, of 0 30 0 0] obtain dets where
    ok: "fst (backfill counter_rand empty_state 0 30 0 0) = None"
    and tr: "trace (snd (backfill counter_rand empty_state 0 30 0 0))
             = trace empty_state
               @ (backfill_stmts counter_rand (NewSource counter_rand 42) (AddDate 0 (- 30 + 1)) [0..<nat 30]
                  @ map (\<lambda>(s, a). UpsertCost (Format_date 0) s a)
                      (day_amounts counter_rand (NewSource counter_rand 0)))
               @ dets"
    and ne: "dets \<noteq> []"
    by blast
  from ne have "0 < length dets" by simp
  with tr have len: "124 < length (trace (snd (backfill counter_rand empty_state 0 30 0 0)))"
    by (simp add: backfill_stmts_length services_def)
  obtain e st1 where b: "backfill counter_rand empty_state 0 30 0 0 = (e, st1)"
    by (cases "backfill counter_rand empty_state 0 30 0 0")
  with ok have e: "e = None" by simp
  have run: "handle_backfill counter_rand empty_state ?req 0 0 0 = (Status 200, st1)"
    using b e by (simp add: handle_backfill_def sscanf_examples Let_def)
  have range: "trace (snd (handle_costs empty_state
        \<lparr>req_method = ''GET'', q_from = ''yesterday-ish'', q_to = ''31/31/2024'', q_days = ''''\<rparr>))
       = [SelectCosts ''yesterday-ish'' ''31/31/2024'']"
    by (simp add: handle_costs_def empty_state_def sent_def Let_def)
  have refused: "handle_costs (empty_state\<lparr>faults := [ServerError]\<rparr>)
        \<lparr>req_method = ''GET'', q_from = ''yesterday-ish'', q_to = ''31/31/2024'', q_days = ''''\<rparr>
       = (Status 200, empty_state\<lparr>trace := [SelectCosts ''yesterday-ish'' ''31/31/2024'']\<rparr>)"
    by (simp add: handle_costs_def query_fails_def empty_state_def sent_def Let_def)
  from run len b range refused show ?thesis by (simp add: sscanf_examples)
qed

end
